theory Spec2Isabelle
  imports Main
begin

section \<open>The minesweeper engine of script.js\<close>

text \<open>
  The script keeps its game in a handful of variables of one closure: the board (a
  two-dimensional array of cell objects), the dimensions, the mine count and the
  counters. The model is a record of these variables; every function of the script that
  mutates them takes the record and returns the updated one.

  A cell object is created once, by \<open>createEmptyBoard\<close>, at \<open>board[r][c]\<close> with
  \<open>row = r\<close> and \<open>col = c\<close>, and these two fields are never written again. A reference
  to a cell (the argument of \<open>revealCell\<close>, an element of the list \<open>getNeighbors\<close>
  returns, an entry of the flood queue) is therefore modelled by the coordinate pair
  \<open>(row, col)\<close>, and the fields \<open>row\<close> and \<open>col\<close> are not stored a second time. The
  DOM element \<open>el\<close> of a cell, the timer and the texts written to the page are
  presentation and are left out; the class that \<open>setMessage\<close> gives the message
  element is kept, because it is the only place where the script records whether a
  finished game was won or lost.
\<close>

subsection \<open>Data\<close>

record cell =
  mine :: bool
  adjacent :: int
  revealed :: bool
  flagged :: bool

type_synonym coord = "int \<times> int"

type_synonym grid = "cell list list"

record state =
  board :: grid
  cols :: int
  rows :: int
  mineCount :: int
  flagsPlaced :: int
  firstClick :: bool
  gameOver :: bool
  revealedCount :: int
  messageType :: string

text \<open>\<open>board[r][c]\<close>, and the assignment of a changed cell object at that place.\<close>

definition cellAt :: "grid \<Rightarrow> coord \<Rightarrow> cell" where
  "cellAt b p = b ! nat (fst p) ! nat (snd p)"

definition setCell :: "grid \<Rightarrow> coord \<Rightarrow> cell \<Rightarrow> grid" where
  "setCell b p x = b[nat (fst p) := (b ! nat (fst p))[nat (snd p) := x]]"

text \<open>
  The coordinates visited by the nested loops
  \<open>for (r = 0; r < rows; r++) for (c = 0; c < cols; c++)\<close>, in that order.
\<close>

definition allCoords :: "int \<Rightarrow> int \<Rightarrow> coord list" where
  "allCoords rs cs = concat (map (\<lambda>r. map (\<lambda>c. (r, c)) [0..cs - 1]) [0..rs - 1])"

definition inBounds :: "int \<Rightarrow> int \<Rightarrow> coord \<Rightarrow> bool" where
  "inBounds rs cs p = (0 \<le> fst p \<and> fst p < rs \<and> 0 \<le> snd p \<and> snd p < cs)"

text \<open>The board is a grid of \<open>rows\<close> rows of \<open>cols\<close> cells each.\<close>

definition wf_grid :: "int \<Rightarrow> int \<Rightarrow> grid \<Rightarrow> bool" where
  "wf_grid rs cs b = (int (length b) = rs \<and> list_all (\<lambda>row. int (length row) = cs) b)"

definition wf_state :: "state \<Rightarrow> bool" where
  "wf_state s = wf_grid (rows s) (cols s) (board s)"

subsection \<open>Board creation\<close>

definition emptyCell :: cell where
  "emptyCell = \<lparr>mine = False, adjacent = 0, revealed = False, flagged = False\<rparr>"

definition createEmptyBoard :: "int \<Rightarrow> int \<Rightarrow> grid" where
  "createEmptyBoard rs cs = map (\<lambda>r. map (\<lambda>c. emptyCell) [0..cs - 1]) [0..rs - 1]"

subsection \<open>Neighbours and adjacency\<close>

text \<open>
  The pairs \<open>(dr, dc)\<close> that the two nested loops of \<open>getNeighbors\<close> reach past the
  \<open>continue\<close>, in the order of the loops.
\<close>

definition offsets :: "(int \<times> int) list" where
  "offsets = concat (map (\<lambda>dr. concat (map (\<lambda>dc. if dr = 0 \<and> dc = 0 then [] else [(dr, dc)])
                 [-1, 0, 1])) [-1, 0, 1])"

text \<open>Each offset gives \<open>(nr, nc)\<close>; the cell is pushed when it lies inside the board.\<close>

definition getNeighbors :: "int \<Rightarrow> int \<Rightarrow> coord \<Rightarrow> coord list" where
  "getNeighbors rs cs p =
     filter (\<lambda>(nr, nc). nr \<ge> 0 \<and> nr < rs \<and> nc \<ge> 0 \<and> nc < cs)
            (map (\<lambda>(dr, dc). (fst p + dr, snd p + dc)) offsets)"

definition countAdjacentMines :: "grid \<Rightarrow> int \<Rightarrow> int \<Rightarrow> coord \<Rightarrow> int" where
  "countAdjacentMines b rs cs p =
     foldl (\<lambda>acc n. acc + (if mine (cellAt b n) then 1 else 0)) 0 (getNeighbors rs cs p)"

subsection \<open>Mine placement\<close>

text \<open>
  \<open>placeMines\<close> draws coordinates with \<open>Math.floor(Math.random() * rows)\<close> and
  \<open>Math.floor(Math.random() * cols)\<close> until \<open>mineCount\<close> mines are placed. The pairs
  drawn are a parameter of the model: the list \<open>ds\<close> holds the values of the two
  expressions, one pair for each round of the loop. For positive \<open>rows\<close> and \<open>cols\<close>
  each pair lies inside the board (\<open>validDraws\<close>). The loop has no bound of its own: if
  the draws never bring up enough free cells it runs forever, which the model reports
  as \<open>None\<close> when the list is used up before \<open>placed\<close> reaches \<open>mineCount\<close>.
\<close>

definition validDraws :: "int \<Rightarrow> int \<Rightarrow> coord list \<Rightarrow> bool" where
  "validDraws rs cs ds = list_all (inBounds rs cs) ds"

fun placeMinesLoop :: "coord list \<Rightarrow> coord set \<Rightarrow> int \<Rightarrow> int \<Rightarrow> grid \<Rightarrow> grid option" where
  "placeMinesLoop [] safeZone placed mc b = (if placed < mc then None else Some b)"
| "placeMinesLoop (d # ds) safeZone placed mc b =
     (if placed < mc then
        (if mine (cellAt b d) then placeMinesLoop ds safeZone placed mc b
         else if d \<in> safeZone then placeMinesLoop ds safeZone placed mc b
         else placeMinesLoop ds safeZone (placed + 1) mc
                (setCell b d ((cellAt b d)\<lparr>mine := True\<rparr>)))
      else Some b)"

text \<open>The body of the second pair of loops of \<open>placeMines\<close>, and the loops.\<close>

definition adjacentStep :: "int \<Rightarrow> int \<Rightarrow> coord \<Rightarrow> grid \<Rightarrow> grid" where
  "adjacentStep rs cs p b =
     (if \<not> mine (cellAt b p)
      then setCell b p ((cellAt b p)\<lparr>adjacent := countAdjacentMines b rs cs p\<rparr>)
      else b)"

definition calcAdjacent :: "int \<Rightarrow> int \<Rightarrow> grid \<Rightarrow> grid" where
  "calcAdjacent rs cs b = fold (adjacentStep rs cs) (allCoords rs cs) b"

definition placeMines :: "coord list \<Rightarrow> state \<Rightarrow> coord \<Rightarrow> state option" where
  "placeMines ds s safe =
     (case placeMinesLoop ds {safe} 0 (mineCount s) (board s) of
        None \<Rightarrow> None
      | Some b \<Rightarrow> Some (s\<lparr>board := calcAdjacent (rows s) (cols s) b\<rparr>))"

subsection \<open>Flags\<close>

definition toggleFlag :: "state \<Rightarrow> coord \<Rightarrow> state" where
  "toggleFlag s p =
     (let cell = cellAt (board s) p in
      if revealed cell then s
      else (let cell' = cell\<lparr>flagged := \<not> flagged cell\<rparr>;
                s' = s\<lparr>board := setCell (board s) p cell'\<rparr>
            in if flagged cell' then s'\<lparr>flagsPlaced := flagsPlaced s' + 1\<rparr>
               else s'\<lparr>flagsPlaced := flagsPlaced s' - 1\<rparr>))"

subsection \<open>Flood fill\<close>

text \<open>
  The body of the \<open>forEach\<close> over the neighbours of the cell taken from the queue: it
  works on the board, on \<open>revealedCount\<close> and on the queue.
\<close>

definition floodStep :: "coord \<Rightarrow> state \<times> coord list \<Rightarrow> state \<times> coord list" where
  "floodStep n sq =
     (case sq of (s, queue) \<Rightarrow>
        (let c = cellAt (board s) n in
         if \<not> revealed c \<and> \<not> flagged c \<and> \<not> mine c then
           (let s' = s\<lparr>board := setCell (board s) n (c\<lparr>revealed := True\<rparr>),
                        revealedCount := revealedCount s + 1\<rparr>
            in if adjacent c > 0 then (s', queue) else (s', queue @ [n]))
         else (s, queue)))"

subsection \<open>Basic facts about coordinates and the grid\<close>

lemma offsets_eq:
  "offsets = [(-1, -1), (-1, 0), (-1, 1), (0, -1), (0, 1), (1, -1), (1, 0), (1, 1)]"
  by (simp add: offsets_def)

lemma allCoords_product: "allCoords rs cs = List.product [0..rs - 1] [0..cs - 1]"
  by (simp add: allCoords_def product_concat_map)

lemma set_allCoords: "set (allCoords rs cs) = {p. inBounds rs cs p}"
  by (auto simp add: allCoords_product inBounds_def)

lemma distinct_allCoords: "distinct (allCoords rs cs)"
  by (simp add: allCoords_product distinct_product)

lemma length_upto0: "length [0..n - 1] = nat n"
  by simp

lemma nth_upto0: "0 \<le> i \<Longrightarrow> i < n \<Longrightarrow> [0..n - 1] ! nat i = i"
  by simp

lemma wf_grid_setCell: "wf_grid rs cs b \<Longrightarrow> wf_grid rs cs (setCell b p x)"
proof (cases "nat (fst p) < length b")
  case True
  assume w: "wf_grid rs cs b"
  from True have "b ! nat (fst p) \<in> set b" by simp
  with w have "int (length ((b ! nat (fst p))[nat (snd p) := x])) = cs"
    by (simp add: wf_grid_def list_all_iff)
  moreover have "set (b[nat (fst p) := (b ! nat (fst p))[nat (snd p) := x]])
       \<subseteq> insert ((b ! nat (fst p))[nat (snd p) := x]) (set b)"
    by (rule set_update_subset_insert)
  ultimately show ?thesis using w
    by (auto simp add: wf_grid_def setCell_def list_all_iff)
next
  case False
  assume w: "wf_grid rs cs b"
  from False have "setCell b p x = b" by (simp add: setCell_def list_update_beyond)
  with w show ?thesis by simp
qed

lemma cellAt_setCell:
  assumes "wf_grid rs cs b" "inBounds rs cs p" "inBounds rs cs q"
  shows "cellAt (setCell b p x) q = (if q = p then x else cellAt b q)"
proof -
  from assms have 1: "nat (fst p) < length b" by (auto simp add: wf_grid_def inBounds_def)
  then have "b ! nat (fst p) \<in> set b" by simp
  with assms have 2: "nat (snd p) < length (b ! nat (fst p))"
    by (auto simp add: wf_grid_def inBounds_def list_all_iff)
  from assms have 3: "q = p \<longleftrightarrow> nat (fst q) = nat (fst p) \<and> nat (snd q) = nat (snd p)"
    by (auto simp add: inBounds_def prod_eq_iff)
  show ?thesis using 1 2 3
    by (simp add: cellAt_def setCell_def nth_list_update)
qed

lemma wf_grid_createEmptyBoard: "0 \<le> rs \<Longrightarrow> 0 \<le> cs \<Longrightarrow> wf_grid rs cs (createEmptyBoard rs cs)"
  by (simp add: wf_grid_def createEmptyBoard_def list_all_iff)

lemma cellAt_createEmptyBoard: "inBounds rs cs p \<Longrightarrow> cellAt (createEmptyBoard rs cs) p = emptyCell"
  by (simp add: cellAt_def createEmptyBoard_def inBounds_def)

subsection \<open>The flood loop and its termination\<close>

lemma floodStep_dims:
  "rows (fst (floodStep n sq)) = rows (fst sq) \<and> cols (fst (floodStep n sq)) = cols (fst sq)"
  by (cases sq) (simp add: floodStep_def Let_def)

lemma fold_floodStep_dims:
  "rows (fst (fold floodStep ns sq)) = rows (fst sq) \<and>
   cols (fst (fold floodStep ns sq)) = cols (fst sq)"
  by (induction ns arbitrary: sq) (simp_all add: floodStep_dims)

lemma floodStep_queue:
  "set (snd (floodStep n sq)) \<subseteq> insert n (set (snd sq))"
  by (cases sq) (auto simp add: floodStep_def Let_def)

lemma fold_floodStep_queue:
  "set (snd (fold floodStep ns sq)) \<subseteq> set ns \<union> set (snd sq)"
proof (induction ns arbitrary: sq)
  case Nil
  show ?case by simp
next
  case (Cons n ns)
  have "set (snd (fold floodStep ns (floodStep n sq))) \<subseteq> set ns \<union> set (snd (floodStep n sq))"
    by (rule Cons.IH)
  with floodStep_queue [of n sq] show ?case by auto
qed

lemma getNeighbors_inBounds:
  "q \<in> set (getNeighbors rs cs p) \<Longrightarrow> inBounds rs cs q"
  by (auto simp add: getNeighbors_def inBounds_def)

function floodLoop :: "coord list \<Rightarrow> coord set \<Rightarrow> state \<Rightarrow> state" where
  "floodLoop [] visited s = s"
| "floodLoop (c # queue) visited s =
     (if c \<in> visited then floodLoop queue visited s
      else (case fold floodStep (getNeighbors (rows s) (cols s) c) (s, queue) of
              (s', queue') \<Rightarrow> floodLoop queue' (insert c visited) s'))"
  by pat_completeness auto
termination
proof (relation "(\<lambda>(q, v, s). card ((set (allCoords (rows s) (cols s)) \<union> set q) - v))
                   <*mlex*> measure (\<lambda>(q, v, s). length q)")
  show "wf ((\<lambda>(q, v, s). card ((set (allCoords (rows s) (cols s)) \<union> set q) - v))
                   <*mlex*> measure (\<lambda>(q, v, s). length q))"
    by (simp add: wf_mlex)
next
  fix c :: coord and queue visited and s :: state
  assume "c \<in> visited"
  have "card ((set (allCoords (rows s) (cols s)) \<union> set queue) - visited)
        \<le> card ((set (allCoords (rows s) (cols s)) \<union> set (c # queue)) - visited)"
    by (rule card_mono) auto
  then show "((queue, visited, s), (c # queue, visited, s))
       \<in> (\<lambda>(q, v, s). card ((set (allCoords (rows s) (cols s)) \<union> set q) - v))
                   <*mlex*> measure (\<lambda>(q, v, s). length q)"
    by (intro mlex_leq) simp_all
next
  fix c :: coord and queue visited and s :: state and s' queue'
  assume nv: "c \<notin> visited"
    and sq: "(s', queue') = fold floodStep (getNeighbors (rows s) (cols s) c) (s, queue)"
  from sq have e: "fold floodStep (getNeighbors (rows s) (cols s) c) (s, queue) = (s', queue')"
    by simp
  have s': "s' = fst (fold floodStep (getNeighbors (rows s) (cols s) c) (s, queue))"
    and q': "queue' = snd (fold floodStep (getNeighbors (rows s) (cols s) c) (s, queue))"
    by (simp_all add: e)
  from s' have dims: "rows s' = rows s" "cols s' = cols s"
    using fold_floodStep_dims [of "getNeighbors (rows s) (cols s) c" "(s, queue)"] by simp_all
  have "set queue' \<subseteq> set (getNeighbors (rows s) (cols s) c) \<union> set queue"
    unfolding q' using fold_floodStep_queue [of "getNeighbors (rows s) (cols s) c" "(s, queue)"]
    by simp
  then have sub: "set queue' \<subseteq> set (allCoords (rows s) (cols s)) \<union> set queue"
    using getNeighbors_inBounds [of _ "rows s" "cols s" c] by (auto simp add: set_allCoords)
  have "(set (allCoords (rows s) (cols s)) \<union> set queue') - insert c visited
        \<subset> (set (allCoords (rows s) (cols s)) \<union> set (c # queue)) - visited"
    using sub nv by auto
  then have "card ((set (allCoords (rows s) (cols s)) \<union> set queue') - insert c visited)
        < card ((set (allCoords (rows s) (cols s)) \<union> set (c # queue)) - visited)"
    by (intro psubset_card_mono) simp_all
  then show "((queue', insert c visited, s'), (c # queue, visited, s))
       \<in> (\<lambda>(q, v, s). card ((set (allCoords (rows s) (cols s)) \<union> set q) - v))
                   <*mlex*> measure (\<lambda>(q, v, s). length q)"
    by (intro mlex_less) (simp add: dims)
qed

declare floodLoop.simps [simp del]

text \<open>
  The loop ends because a cell taken from the queue is either already in \<open>visited\<close> or
  enters it, and everything the loop appends to the queue is a neighbour inside the
  board.
\<close>

definition floodReveal :: "state \<Rightarrow> coord \<Rightarrow> state" where
  "floodReveal s startCell = floodLoop [startCell] {} s"

subsection \<open>End of the game\<close>

definition checkWin :: "state \<Rightarrow> bool" where
  "checkWin s = (let totalSafe = rows s * cols s - mineCount s
                 in revealedCount s \<ge> totalSafe \<and> \<not> gameOver s)"

text \<open>
  \<open>revealAllMines\<close>: the first branch sets \<open>revealed\<close> on every mine not yet revealed;
  the second branch (a wrong flag after a loss) only changes the page.
\<close>

definition revealMineStep :: "coord \<Rightarrow> grid \<Rightarrow> grid" where
  "revealMineStep p b =
     (let c = cellAt b p
      in if mine c \<and> \<not> revealed c then setCell b p (c\<lparr>revealed := True\<rparr>) else b)"

definition revealAllMines :: "bool \<Rightarrow> state \<Rightarrow> state" where
  "revealAllMines won s =
     s\<lparr>board := fold revealMineStep (allCoords (rows s) (cols s)) (board s)\<rparr>"

definition endGame :: "bool \<Rightarrow> state \<Rightarrow> state" where
  "endGame win s =
     (let s1 = s\<lparr>gameOver := True\<rparr>
      in if win then revealAllMines True (s1\<lparr>messageType := ''win''\<rparr>)
         else revealAllMines False (s1\<lparr>messageType := ''lose''\<rparr>))"

subsection \<open>Reveal\<close>

text \<open>
  \<open>revealCell\<close> takes the draws that \<open>placeMines\<close> consumes when this is the first
  click; the result is \<open>None\<close> when the placement loop does not come to an end with them.
\<close>

definition revealCell :: "coord list \<Rightarrow> state \<Rightarrow> coord \<Rightarrow> state option" where
  "revealCell ds s p =
     (if revealed (cellAt (board s) p) \<or> flagged (cellAt (board s) p) then Some s
      else
        (case (if firstClick s
               then map_option (\<lambda>t. t\<lparr>firstClick := False\<rparr>) (placeMines ds s p)
               else Some s) of
           None \<Rightarrow> None
         | Some s1 \<Rightarrow>
             (let s2 = s1\<lparr>board := setCell (board s1) p ((cellAt (board s1) p)\<lparr>revealed := True\<rparr>),
                          revealedCount := revealedCount s1 + 1\<rparr>
              in if mine (cellAt (board s2) p) then Some (endGame False s2)
                 else
                   (let s3 = (if adjacent (cellAt (board s2) p) = 0 then floodReveal s2 p else s2)
                    in if checkWin s3 then Some (endGame True s3) else Some s3))))"

text \<open>
  The parts of \<open>revealCell\<close>, named for the proofs: the placement on the first
  click, the two assignments that mark the cell, the flood for a cell without mines
  around it, and the rest of the function from the test of \<open>cell.mine\<close> on.
\<close>

definition placeOnFirstClick :: "coord list \<Rightarrow> state \<Rightarrow> coord \<Rightarrow> state option" where
  "placeOnFirstClick ds s p =
     (if firstClick s then map_option (\<lambda>t. t\<lparr>firstClick := False\<rparr>) (placeMines ds s p)
      else Some s)"

definition markRevealed :: "state \<Rightarrow> coord \<Rightarrow> state" where
  "markRevealed s p =
     s\<lparr>board := setCell (board s) p ((cellAt (board s) p)\<lparr>revealed := True\<rparr>),
       revealedCount := revealedCount s + 1\<rparr>"

definition floodIfZero :: "state \<Rightarrow> coord \<Rightarrow> state" where
  "floodIfZero s p = (if adjacent (cellAt (board s) p) = 0 then floodReveal s p else s)"

definition finishReveal :: "state \<Rightarrow> coord \<Rightarrow> state" where
  "finishReveal s p =
     (if mine (cellAt (board s) p) then endGame False s
      else if checkWin (floodIfZero s p) then endGame True (floodIfZero s p)
      else floodIfZero s p)"

subsection \<open>The commands of the page\<close>

text \<open>
  \<open>onCellClick\<close> and \<open>onCellRightClick\<close> are the handlers the page binds to every cell
  button; \<open>getCellFromEvent\<close> gives the cell of the button, here its coordinates. The
  keyboard handler and the long press make the same two calls under the same tests
  (\<open>gameOver\<close>, then \<open>cell.flagged\<close> before \<open>revealCell\<close> and \<open>cell.revealed\<close> before
  \<open>toggleFlag\<close>), so they add no further command.
\<close>

definition onCellClick :: "coord list \<Rightarrow> state \<Rightarrow> coord \<Rightarrow> state option" where
  "onCellClick ds s p =
     (if gameOver s then Some s
      else if flagged (cellAt (board s) p) then Some s
      else revealCell ds s p)"

definition onCellRightClick :: "state \<Rightarrow> coord \<Rightarrow> state" where
  "onCellRightClick s p =
     (if gameOver s then s
      else if revealed (cellAt (board s) p) then s
      else toggleFlag s p)"

text \<open>The table \<open>difficulties\<close>, of which \<open>resetGame\<close> uses the entry \<open>beginner\<close>.\<close>

record difficulty =
  d_cols :: int
  d_rows :: int
  d_mines :: int

definition beginner :: difficulty where
  "beginner = \<lparr>d_cols = 9, d_rows = 9, d_mines = 10\<rparr>"

definition intermediate :: difficulty where
  "intermediate = \<lparr>d_cols = 16, d_rows = 16, d_mines = 40\<rparr>"

definition expert :: difficulty where
  "expert = \<lparr>d_cols = 30, d_rows = 16, d_mines = 99\<rparr>"

definition resetGame :: "state \<Rightarrow> state" where
  "resetGame s =
     (let s1 = s\<lparr>messageType := '''', gameOver := False, revealedCount := 0, flagsPlaced := 0,
                  firstClick := True\<rparr>;
          s2 = s1\<lparr>cols := d_cols beginner, rows := d_rows beginner, mineCount := d_mines beginner\<rparr>
      in s2\<lparr>board := createEmptyBoard (rows s2) (cols s2)\<rparr>)"

text \<open>The variables as the script declares them, before its first \<open>resetGame()\<close>.\<close>

definition initialState :: state where
  "initialState = \<lparr>board = [], cols = 9, rows = 9, mineCount = 10, flagsPlaced = 0,
                    firstClick = True, gameOver = False, revealedCount = 0, messageType = ''''\<rparr>"

subsection \<open>The phase of the game\<close>

text \<open>
  The script has no phase variable. The four phases of the specification are read off
  \<open>gameOver\<close>, \<open>firstClick\<close> and the class of the message that \<open>endGame\<close> sets.
\<close>

datatype phase = NotStarted | InProgress | Won | Lost

definition phaseOf :: "state \<Rightarrow> phase" where
  "phaseOf s =
     (if gameOver s then (if messageType s = ''win'' then Won else Lost)
      else if firstClick s then NotStarted else InProgress)"

subsection \<open>The reset command of the specification\<close>

text \<open>
  The specification gives \<open>reset\<close> a configuration and two ways to fail. The script
  binds \<open>resetGame\<close> to the reset button and exposes it as
  \<open>window.__Minesweeper__.reset\<close>. \<open>resetGame\<close> declares no parameter, so a
  configuration passed in a call is dropped, and the function has no failing path: a
  call \<open>reset(config)\<close> is a run of \<open>resetGame\<close>.
\<close>

datatype error = InvalidDimensions | TooManyMines | OutOfBounds

record config =
  cfg_rows :: int
  cfg_cols :: int
  cfg_mineCount :: int

definition reset :: "config \<Rightarrow> state \<Rightarrow> error + state" where
  "reset cfg s = Inr (resetGame s)"

subsection \<open>Counting cells\<close>

text \<open>
  The cells of the board whose record satisfies \<open>P\<close>, found by a scan over all
  coordinates, and the number of flagged cells.
\<close>

definition cellsWhere :: "(cell \<Rightarrow> bool) \<Rightarrow> int \<Rightarrow> int \<Rightarrow> grid \<Rightarrow> coord list" where
  "cellsWhere P rs cs b = filter (\<lambda>q. P (cellAt b q)) (allCoords rs cs)"

definition countFlagged :: "state \<Rightarrow> int" where
  "countFlagged s = int (length (cellsWhere flagged (rows s) (cols s) (board s)))"

definition countMines :: "state \<Rightarrow> int" where
  "countMines s = int (length (cellsWhere mine (rows s) (cols s) (board s)))"

text \<open>
  The brute-force neighbour scan of the specification: every cell of the board is
  tested for being a king move away from \<open>p\<close> and for carrying a mine.
\<close>

definition kingMove :: "coord \<Rightarrow> coord \<Rightarrow> bool" where
  "kingMove p q = (q \<noteq> p \<and> \<bar>fst q - fst p\<bar> \<le> 1 \<and> \<bar>snd q - snd p\<bar> \<le> 1)"

definition bruteForceCount :: "grid \<Rightarrow> int \<Rightarrow> int \<Rightarrow> coord \<Rightarrow> int" where
  "bruteForceCount b rs cs p =
     int (length (filter (\<lambda>q. kingMove p q \<and> mine (cellAt b q)) (allCoords rs cs)))"

text \<open>The flag counter agrees with the board (on a well-formed board).\<close>

definition flagInv :: "state \<Rightarrow> bool" where
  "flagInv s = (wf_state s \<and> flagsPlaced s = countFlagged s)"

subsection \<open>What the flood reaches\<close>

text \<open>
  A neighbour is revealed by the flood when it is \<open>eligible\<close>: covered, unflagged and
  not a mine. \<open>floodSeed\<close> holds for the cells the flood expands, which are the start
  cell and every eligible cell without mines around it that is a neighbour of an
  expanded cell; \<open>floodArea\<close> holds for the eligible neighbours of the expanded cells.
  Both are read on the board as it is when the flood starts. \<open>adjacentOK\<close> says that
  no adjacency count of the board is negative.
\<close>

definition eligible :: "grid \<Rightarrow> coord \<Rightarrow> bool" where
  "eligible b n = (\<not> revealed (cellAt b n) \<and> \<not> flagged (cellAt b n) \<and> \<not> mine (cellAt b n))"

inductive floodSeed :: "state \<Rightarrow> coord \<Rightarrow> coord \<Rightarrow> bool" for s :: state and p :: coord where
  seed_start: "floodSeed s p p"
| seed_step: "floodSeed s p z \<Longrightarrow> n \<in> set (getNeighbors (rows s) (cols s) z) \<Longrightarrow>
     eligible (board s) n \<Longrightarrow> adjacent (cellAt (board s) n) = 0 \<Longrightarrow> floodSeed s p n"

definition floodArea :: "state \<Rightarrow> coord \<Rightarrow> coord \<Rightarrow> bool" where
  "floodArea s p q =
     (eligible (board s) q \<and> (\<exists>z. floodSeed s p z \<and> q \<in> set (getNeighbors (rows s) (cols s) z)))"

definition adjacentOK :: "state \<Rightarrow> bool" where
  "adjacentOK s = list_all (\<lambda>q. 0 \<le> adjacent (cellAt (board s) q)) (allCoords (rows s) (cols s))"

text \<open>
  The region in the words of the specification: the cells joined to the start cell by
  king moves through cells without mines around them, and the cells one king move
  away from these.
\<close>

inductive zeroComponent :: "state \<Rightarrow> coord \<Rightarrow> coord \<Rightarrow> bool" for s :: state and p :: coord where
  zc_start: "zeroComponent s p p"
| zc_step: "zeroComponent s p z \<Longrightarrow> inBounds (rows s) (cols s) n \<Longrightarrow> kingMove z n \<Longrightarrow>
     adjacent (cellAt (board s) n) = 0 \<Longrightarrow> zeroComponent s p n"

definition specFlood :: "state \<Rightarrow> coord \<Rightarrow> coord \<Rightarrow> bool" where
  "specFlood s p q =
     (\<exists>z. zeroComponent s p z \<and> (q = z \<or> (inBounds (rows s) (cols s) q \<and> kingMove z q)))"

text \<open>
  Two conditions under which the two regions agree: the adjacency count of every cell
  that is not a mine is exact, and no cell of the board is flagged or, the start cell
  apart, revealed.
\<close>

definition adjacentExact :: "state \<Rightarrow> bool" where
  "adjacentExact s =
     list_all (\<lambda>q. mine (cellAt (board s) q) \<or>
                   adjacent (cellAt (board s) q) = countAdjacentMines (board s) (rows s) (cols s) q)
              (allCoords (rows s) (cols s))"

definition cleanBoard :: "state \<Rightarrow> coord \<Rightarrow> bool" where
  "cleanBoard s p =
     list_all (\<lambda>q. \<not> flagged (cellAt (board s) q) \<and> (revealed (cellAt (board s) q) \<longrightarrow> q = p))
              (allCoords (rows s) (cols s))"

text \<open>
  The invariant of the flood loop, for a flood started in state \<open>s\<close> on cell \<open>p\<close>. A cell
  is \<open>discovered\<close> when it is the start cell or was revealed by the flood and has no
  mines around it; it is \<open>expanded\<close> when all its eligible neighbours are revealed.
\<close>

definition discovered :: "state \<Rightarrow> coord \<Rightarrow> state \<Rightarrow> coord \<Rightarrow> bool" where
  "discovered s p t z =
     (z = p \<or> (inBounds (rows s) (cols s) z \<and> eligible (board s) z \<and>
               adjacent (cellAt (board s) z) = 0 \<and> revealed (cellAt (board t) z)))"

definition expanded :: "state \<Rightarrow> state \<Rightarrow> coord \<Rightarrow> bool" where
  "expanded s t z =
     (\<forall>n \<in> set (getNeighbors (rows s) (cols s) z).
        eligible (board s) n \<longrightarrow> revealed (cellAt (board t) n))"

definition floodInv :: "state \<Rightarrow> coord \<Rightarrow> coord list \<Rightarrow> coord set \<Rightarrow> state \<Rightarrow> bool" where
  "floodInv s p queue visited t =
     (rows t = rows s \<and> cols t = cols s \<and> wf_grid (rows s) (cols s) (board t) \<and>
      (\<forall>x. mine (cellAt (board t) x) = mine (cellAt (board s) x) \<and>
           flagged (cellAt (board t) x) = flagged (cellAt (board s) x) \<and>
           adjacent (cellAt (board t) x) = adjacent (cellAt (board s) x)) \<and>
      (\<forall>x. inBounds (rows s) (cols s) x \<longrightarrow>
           (revealed (cellAt (board s) x) \<longrightarrow> revealed (cellAt (board t) x)) \<and>
           (revealed (cellAt (board t) x) \<longrightarrow>
              revealed (cellAt (board s) x) \<or> floodArea s p x)) \<and>
      (\<forall>z \<in> set queue. floodSeed s p z) \<and>
      (\<forall>z. discovered s p t z \<longrightarrow> z \<in> set queue \<or> expanded s t z) \<and>
      (\<forall>z \<in> visited. expanded s t z))"

subsection \<open>Reachable states\<close>

text \<open>
  The states the page can be in: after a reset (from whatever state), and after a click
  or a right click on a cell of the board. A click on the first move comes with the
  draws of \<open>placeMines\<close>, which lie inside the board.
\<close>

inductive reachable :: "state \<Rightarrow> bool" where
  reach_reset: "reachable (resetGame s)"
| reach_click: "reachable s \<Longrightarrow> inBounds (rows s) (cols s) p \<Longrightarrow>
     validDraws (rows s) (cols s) ds \<Longrightarrow> onCellClick ds s p = Some s' \<Longrightarrow> reachable s'"
| reach_flag: "reachable s \<Longrightarrow> inBounds (rows s) (cols s) p \<Longrightarrow>
     reachable (onCellRightClick s p)"

text \<open>
  Two conditions on the cells of the board: no cell is revealed and flagged at once;
  and the weaker one, that such a cell is a mine of a finished game.
\<close>

definition exposureInv :: "state \<Rightarrow> bool" where
  "exposureInv s = (\<forall>p. inBounds (rows s) (cols s) p \<longrightarrow>
      revealed (cellAt (board s) p) \<longrightarrow> flagged (cellAt (board s) p) \<longrightarrow>
      gameOver s \<and> mine (cellAt (board s) p))"

definition noBoth :: "state \<Rightarrow> bool" where
  "noBoth s = (\<forall>p. inBounds (rows s) (cols s) p \<longrightarrow>
      \<not> (revealed (cellAt (board s) p) \<and> flagged (cellAt (board s) p)))"

text \<open>In a game that is over every mine of the board is revealed.\<close>

definition minesExposed :: "state \<Rightarrow> bool" where
  "minesExposed s = (gameOver s \<longrightarrow>
     (\<forall>p. inBounds (rows s) (cols s) p \<longrightarrow> mine (cellAt (board s) p) \<longrightarrow>
          revealed (cellAt (board s) p)))"

subsection \<open>Sample games\<close>

text \<open>
  The game after the script has loaded, a list of draws, and games played from there.
  With the first click on \<open>(0, 0)\<close> the draws put the ten mines on
  \<open>(0, 1)\<close> to \<open>(0, 8)\<close>, \<open>(1, 0)\<close> and \<open>(1, 1)\<close>; the second draw repeats a mine and
  the third hits the safe cell, and the loop rejects both. With the first click on
  \<open>(4, 4)\<close> the mines are \<open>(0, 0)\<close> to \<open>(0, 8)\<close> and \<open>(1, 0)\<close>, and the flood from
  \<open>(4, 4)\<close> opens every other cell.
\<close>

definition freshGame :: state where
  "freshGame = resetGame initialState"

definition draws1 :: "coord list" where
  "draws1 = [(0, 1), (0, 1), (0, 0), (0, 2), (0, 3), (0, 4), (0, 5), (0, 6), (0, 7), (0, 8),
             (1, 0), (1, 1)]"

definition openedGame :: state where
  "openedGame = the (onCellClick draws1 freshGame (0, 0))"

definition wonGame :: state where
  "wonGame = the (onCellClick draws1 freshGame (4, 4))"

definition placedGame :: state where
  "placedGame = the (placeMines draws1 freshGame (0, 0))"

text \<open>
  A lost game: after the first click on \<open>(0, 0)\<close> the mine on \<open>(0, 1)\<close> is flagged,
  then the mine on \<open>(0, 2)\<close> is clicked.
\<close>

definition flaggedMineGame :: state where
  "flaggedMineGame = onCellRightClick openedGame (0, 1)"

definition lostGame :: state where
  "lostGame = the (onCellClick [] flaggedMineGame (0, 2))"

text \<open>
  A first click on \<open>(4, 4)\<close> after a flag was put on \<open>(4, 5)\<close>: \<open>floodEntry\<close> is the
  state in which \<open>revealCell\<close> calls \<open>floodReveal\<close>.
\<close>

definition preFlaggedGame :: state where
  "preFlaggedGame = onCellRightClick freshGame (4, 5)"

definition floodEntry :: state where
  "floodEntry = markRevealed (the (placeOnFirstClick draws1 preFlaggedGame (4, 4))) (4, 4)"


section \<open>Auxiliary facts\<close>

subsection \<open>Reading and writing cells\<close>

lemma cellAt_setCell_gen:
  "cellAt (setCell b q x) p =
     (if nat (fst p) = nat (fst q) \<and> nat (snd p) = nat (snd q) \<and>
         nat (fst q) < length b \<and> nat (snd q) < length (b ! nat (fst q))
      then x else cellAt b p)"
proof -
  have nth_upd: "\<And>(xs :: cell list) j j' y. xs[j := y] ! j' = (if j' = j \<and> j < length xs then y else xs ! j')"
    by (case_tac "j < length xs") (auto simp add: nth_list_update list_update_beyond)
  have nth_upd2: "\<And>(xs :: cell list list) i i' y. xs[i := y] ! i' = (if i' = i \<and> i < length xs then y else xs ! i')"
    by (case_tac "i < length xs") (auto simp add: nth_list_update list_update_beyond)
  show ?thesis
    by (simp add: cellAt_def setCell_def nth_upd nth_upd2)
qed

lemma cellAt_cong_nat:
  "nat (fst p) = nat (fst q) \<Longrightarrow> nat (snd p) = nat (snd q) \<Longrightarrow> cellAt b p = cellAt b q"
  by (simp add: cellAt_def)

lemma setCell_setCell: "setCell (setCell b p x) p y = setCell b p y"
  by (cases "nat (fst p) < length b") (simp_all add: setCell_def list_update_beyond)

lemma setCell_same: "setCell b p (cellAt b p) = b"
  by (simp add: setCell_def cellAt_def)

lemma wf_slot:
  assumes "wf_grid rs cs b" "inBounds rs cs p"
  shows "nat (fst p) < length b \<and> nat (snd p) < length (b ! nat (fst p))"
proof -
  from assms have 1: "nat (fst p) < length b" by (auto simp add: wf_grid_def inBounds_def)
  then have "b ! nat (fst p) \<in> set b" by simp
  with assms have "nat (snd p) < length (b ! nat (fst p))"
    by (auto simp add: wf_grid_def inBounds_def list_all_iff)
  with 1 show ?thesis by simp
qed

subsection \<open>Fields that an operation leaves alone\<close>

lemma setCell_revealed_fields:
  "mine (cellAt (setCell b q ((cellAt b q)\<lparr>revealed := v\<rparr>)) p) = mine (cellAt b p) \<and>
   flagged (cellAt (setCell b q ((cellAt b q)\<lparr>revealed := v\<rparr>)) p) = flagged (cellAt b p) \<and>
   adjacent (cellAt (setCell b q ((cellAt b q)\<lparr>revealed := v\<rparr>)) p) = adjacent (cellAt b p)"
  by (simp add: cellAt_setCell_gen cellAt_cong_nat [of p q])

lemma revealAllMines_fields [simp]:
  "gameOver (revealAllMines w s) = gameOver s"
  "messageType (revealAllMines w s) = messageType s"
  "firstClick (revealAllMines w s) = firstClick s"
  "revealedCount (revealAllMines w s) = revealedCount s"
  "flagsPlaced (revealAllMines w s) = flagsPlaced s"
  "rows (revealAllMines w s) = rows s"
  "cols (revealAllMines w s) = cols s"
  "mineCount (revealAllMines w s) = mineCount s"
  by (simp_all add: revealAllMines_def)

lemma endGame_fields [simp]:
  "gameOver (endGame w s) = True"
  "messageType (endGame w s) = (if w then ''win'' else ''lose'')"
  "firstClick (endGame w s) = firstClick s"
  "revealedCount (endGame w s) = revealedCount s"
  "flagsPlaced (endGame w s) = flagsPlaced s"
  "rows (endGame w s) = rows s"
  "cols (endGame w s) = cols s"
  "mineCount (endGame w s) = mineCount s"
  by (simp_all add: endGame_def Let_def)

lemma floodStep_fields:
  "gameOver (fst (floodStep n sq)) = gameOver (fst sq) \<and>
   messageType (fst (floodStep n sq)) = messageType (fst sq) \<and>
   firstClick (fst (floodStep n sq)) = firstClick (fst sq) \<and>
   flagsPlaced (fst (floodStep n sq)) = flagsPlaced (fst sq) \<and>
   rows (fst (floodStep n sq)) = rows (fst sq) \<and>
   cols (fst (floodStep n sq)) = cols (fst sq) \<and>
   mineCount (fst (floodStep n sq)) = mineCount (fst sq)"
  by (cases sq) (simp add: floodStep_def Let_def)

lemma fold_floodStep_fields:
  "gameOver (fst (fold floodStep ns sq)) = gameOver (fst sq) \<and>
   messageType (fst (fold floodStep ns sq)) = messageType (fst sq) \<and>
   firstClick (fst (fold floodStep ns sq)) = firstClick (fst sq) \<and>
   flagsPlaced (fst (fold floodStep ns sq)) = flagsPlaced (fst sq) \<and>
   rows (fst (fold floodStep ns sq)) = rows (fst sq) \<and>
   cols (fst (fold floodStep ns sq)) = cols (fst sq) \<and>
   mineCount (fst (fold floodStep ns sq)) = mineCount (fst sq)"
  by (induction ns arbitrary: sq) (simp_all add: floodStep_fields)

lemma floodLoop_rule:
  assumes init: "I q v s"
    and skip: "\<And>c q v s. I (c # q) v s \<Longrightarrow> c \<in> v \<Longrightarrow> I q v s"
    and step: "\<And>c q v s. I (c # q) v s \<Longrightarrow> c \<notin> v \<Longrightarrow>
       I (snd (fold floodStep (getNeighbors (rows s) (cols s) c) (s, q))) (insert c v)
         (fst (fold floodStep (getNeighbors (rows s) (cols s) c) (s, q)))"
    and final: "\<And>v s. I [] v s \<Longrightarrow> P s"
  shows "P (floodLoop q v s)"
  using init
proof (induction q v s rule: floodLoop.induct)
  case (1 visited s)
  then show ?case by (simp add: final floodLoop.simps)
next
  case (2 c queue visited s)
  show ?case
  proof (cases "c \<in> visited")
    case True
    with 2(1) [OF True] skip [OF 2(3) True] show ?thesis by (simp add: floodLoop.simps)
  next
    case False
    obtain s' queue' where e: "fold floodStep (getNeighbors (rows s) (cols s) c) (s, queue) = (s', queue')"
      by (cases "fold floodStep (getNeighbors (rows s) (cols s) c) (s, queue)")
    from step [OF 2(3) False] e have "I queue' (insert c visited) s'" by simp
    with 2(2) [OF False e [symmetric]] have "P (floodLoop queue' (insert c visited) s')" .
    with False e show ?thesis by (simp add: floodLoop.simps)
  qed
qed

lemma floodLoop_fields:
  "gameOver (floodLoop q v s) = gameOver s \<and>
   messageType (floodLoop q v s) = messageType s \<and>
   firstClick (floodLoop q v s) = firstClick s \<and>
   flagsPlaced (floodLoop q v s) = flagsPlaced s \<and>
   rows (floodLoop q v s) = rows s \<and>
   cols (floodLoop q v s) = cols s \<and>
   mineCount (floodLoop q v s) = mineCount s"
proof (rule floodLoop_rule [where I = "\<lambda>q v t. gameOver t = gameOver s \<and>
   messageType t = messageType s \<and> firstClick t = firstClick s \<and>
   flagsPlaced t = flagsPlaced s \<and> rows t = rows s \<and> cols t = cols s \<and>
   mineCount t = mineCount s"])
  fix c :: coord and q :: "coord list" and v :: "coord set" and t :: state
  assume "gameOver t = gameOver s \<and>
   messageType t = messageType s \<and> firstClick t = firstClick s \<and>
   flagsPlaced t = flagsPlaced s \<and> rows t = rows s \<and> cols t = cols s \<and>
   mineCount t = mineCount s"
  then show "gameOver (fst (fold floodStep (getNeighbors (rows t) (cols t) c) (t, q))) = gameOver s \<and>
   messageType (fst (fold floodStep (getNeighbors (rows t) (cols t) c) (t, q))) = messageType s \<and>
   firstClick (fst (fold floodStep (getNeighbors (rows t) (cols t) c) (t, q))) = firstClick s \<and>
   flagsPlaced (fst (fold floodStep (getNeighbors (rows t) (cols t) c) (t, q))) = flagsPlaced s \<and>
   rows (fst (fold floodStep (getNeighbors (rows t) (cols t) c) (t, q))) = rows s \<and>
   cols (fst (fold floodStep (getNeighbors (rows t) (cols t) c) (t, q))) = cols s \<and>
   mineCount (fst (fold floodStep (getNeighbors (rows t) (cols t) c) (t, q))) = mineCount s"
    using fold_floodStep_fields [of "getNeighbors (rows t) (cols t) c" "(t, q)"] by simp
qed simp_all

lemma revealMineStep_mine: "mine (cellAt (revealMineStep q b) p) = mine (cellAt b p)"
  by (simp add: revealMineStep_def Let_def setCell_revealed_fields)

lemma fold_revealMineStep_mine: "mine (cellAt (fold revealMineStep qs b) p) = mine (cellAt b p)"
  by (induction qs arbitrary: b) (simp_all add: revealMineStep_mine)

lemma revealAllMines_mine: "mine (cellAt (board (revealAllMines w s)) p) = mine (cellAt (board s) p)"
  by (simp add: revealAllMines_def fold_revealMineStep_mine)

lemma endGame_mine: "mine (cellAt (board (endGame w s)) p) = mine (cellAt (board s) p)"
  by (simp add: endGame_def Let_def revealAllMines_mine)

lemma placeMines_fields:
  "placeMines ds s p = Some t \<Longrightarrow>
     gameOver t = gameOver s \<and> messageType t = messageType s \<and> firstClick t = firstClick s \<and>
     flagsPlaced t = flagsPlaced s \<and> rows t = rows s \<and> cols t = cols s \<and>
     mineCount t = mineCount s \<and> revealedCount t = revealedCount s"
  by (auto simp add: placeMines_def split: option.splits)

lemma phaseOf_endGame: "phaseOf (endGame w s) = (if w then Won else Lost)"
  by (simp add: phaseOf_def)

lemma revealCell_win:
  assumes ng: "\<not> gameOver s"
    and r: "revealCell ds s p = Some s'"
    and ch: "revealedCount s' \<noteq> revealedCount s"
    and nm: "\<not> mine (cellAt (board s') p)"
    and tot: "revealedCount s' \<ge> rows s' * cols s' - mineCount s'"
  shows "phaseOf s' = Won"
proof -
  from r ch have cov: "\<not> (revealed (cellAt (board s) p) \<or> flagged (cellAt (board s) p))"
    by (auto simp add: revealCell_def)
  define pre where "pre = (if firstClick s
               then map_option (\<lambda>t. t\<lparr>firstClick := False\<rparr>) (placeMines ds s p)
               else Some s)"
  from r cov obtain s1 where s1: "pre = Some s1"
    by (cases pre) (simp_all add: revealCell_def pre_def)
  have g1: "\<not> gameOver s1"
    using s1 ng by (auto simp add: pre_def split: if_splits dest: placeMines_fields)
  define s2 where "s2 = s1\<lparr>board := setCell (board s1) p ((cellAt (board s1) p)\<lparr>revealed := True\<rparr>),
                          revealedCount := revealedCount s1 + 1\<rparr>"
  define s3 where "s3 = (if adjacent (cellAt (board s2) p) = 0 then floodReveal s2 p else s2)"
  from r cov s1 have r': "Some s' = (if mine (cellAt (board s2) p) then Some (endGame False s2)
      else if checkWin s3 then Some (endGame True s3) else Some s3)"
    unfolding revealCell_def Let_def pre_def s2_def s3_def by simp
  have g3: "\<not> gameOver s3"
    using g1 floodLoop_fields [of "[p]" "{}" s2] by (simp add: s3_def s2_def floodReveal_def)
  show ?thesis
  proof (cases "mine (cellAt (board s2) p)")
    case True
    with r' have "s' = endGame False s2" by simp
    with nm True show ?thesis by (simp add: endGame_mine)
  next
    case False
    show ?thesis
    proof (cases "checkWin s3")
      case True
      with r' False have "s' = endGame True s3" by simp
      then show ?thesis by (simp add: phaseOf_endGame)
    next
      case c: False
      with r' False have "s' = s3" by simp
      with c g3 tot show ?thesis by (simp add: checkWin_def Let_def)
    qed
  qed
qed

subsection \<open>Counting cells that satisfy a predicate\<close>

lemma length_cellsWhere_card:
  "length (cellsWhere P rs cs b) = card {q. inBounds rs cs q \<and> P (cellAt b q)}"
proof -
  have "{x. P (cellAt b x)} \<inter> set (allCoords rs cs) = {q. inBounds rs cs q \<and> P (cellAt b q)}"
    by (auto simp add: set_allCoords)
  then show ?thesis
    by (simp add: cellsWhere_def distinct_length_filter [OF distinct_allCoords])
qed

lemma finite_inBounds: "finite {q. inBounds rs cs q \<and> Q q}"
proof -
  have "{q. inBounds rs cs q \<and> Q q} \<subseteq> set (allCoords rs cs)"
    by (auto simp add: set_allCoords)
  then show ?thesis by (rule finite_subset) simp
qed

lemma card_remove_int:
  assumes "finite A"
  shows "int (card A) = int (card (A - {x})) + (if x \<in> A then 1 else 0)"
proof (cases "x \<in> A")
  case True
  from card.remove [OF assms True] True show ?thesis by simp
next
  case False
  then have "A - {x} = A" by auto
  with False show ?thesis by simp
qed

lemma count_setCell:
  assumes w: "wf_grid rs cs b" and p: "inBounds rs cs p"
  shows "int (length (cellsWhere P rs cs (setCell b p x))) =
         int (length (cellsWhere P rs cs b)) + (if P x then 1 else 0)
           - (if P (cellAt b p) then 1 else 0)"
proof -
  let ?S = "{q. inBounds rs cs q \<and> P (cellAt b q)}"
  let ?S' = "{q. inBounds rs cs q \<and> P (cellAt (setCell b p x) q)}"
  have fin: "finite ?S" "finite ?S'" by (rule finite_inBounds)+
  have other: "\<And>q. q \<noteq> p \<Longrightarrow> inBounds rs cs q \<Longrightarrow> cellAt (setCell b p x) q = cellAt b q"
    by (simp add: cellAt_setCell [OF w p])
  have same: "?S' - {p} = ?S - {p}"
  proof (rule set_eqI)
    fix q
    show "q \<in> ?S' - {p} \<longleftrightarrow> q \<in> ?S - {p}"
      using other [of q] by (cases "q = p") auto
  qed
  have m': "p \<in> ?S' \<longleftrightarrow> P x" using cellAt_setCell [OF w p p] p by simp
  have m: "p \<in> ?S \<longleftrightarrow> P (cellAt b p)" using p by simp
  have c': "int (card ?S') = int (card (?S' - {p})) + (if p \<in> ?S' then 1 else 0)"
    using fin(2) by (rule card_remove_int)
  have c: "int (card ?S) = int (card (?S - {p})) + (if p \<in> ?S then 1 else 0)"
    using fin(1) by (rule card_remove_int)
  show ?thesis
    unfolding length_cellsWhere_card using c c' same m m' by simp
qed

lemma toggleFlag_dims [simp]: "rows (toggleFlag s p) = rows s" "cols (toggleFlag s p) = cols s"
  by (simp_all add: toggleFlag_def Let_def)

lemma toggleFlag_flagInv:
  assumes "flagInv s" "inBounds (rows s) (cols s) p"
  shows "flagInv (toggleFlag s p)"
proof (cases "revealed (cellAt (board s) p)")
  case True
  with assms show ?thesis by (simp add: toggleFlag_def)
next
  case False
  from assms have w: "wf_grid (rows s) (cols s) (board s)" by (simp add: flagInv_def wf_state_def)
  note cnt = count_setCell [OF w assms(2), of flagged]
  have "wf_state (toggleFlag s p)"
    using w False by (simp add: toggleFlag_def Let_def wf_state_def wf_grid_setCell)
  moreover have "flagsPlaced (toggleFlag s p) = countFlagged (toggleFlag s p)"
    using False assms(1) by (simp add: toggleFlag_def Let_def countFlagged_def flagInv_def cnt)
  ultimately show ?thesis by (simp add: flagInv_def)
qed

lemma foldl_toggleFlag_dims:
  "rows (foldl toggleFlag s ps) = rows s \<and> cols (foldl toggleFlag s ps) = cols s"
  by (induction ps arbitrary: s) simp_all

lemma foldl_toggleFlag_flagInv:
  "flagInv s \<Longrightarrow> list_all (inBounds (rows s) (cols s)) ps \<Longrightarrow> flagInv (foldl toggleFlag s ps)"
proof (induction ps arbitrary: s)
  case Nil
  then show ?case by simp
next
  case (Cons p ps)
  from Cons.prems have "flagInv (toggleFlag s p)" by (simp add: toggleFlag_flagInv)
  moreover from Cons.prems have "list_all (inBounds (rows (toggleFlag s p)) (cols (toggleFlag s p))) ps"
    by simp
  ultimately show ?case using Cons.IH [of "toggleFlag s p"] by simp
qed

lemma cellsWhere_createEmptyBoard:
  "\<not> P emptyCell \<Longrightarrow> cellsWhere P rs cs (createEmptyBoard rs cs) = []"
  by (simp add: cellsWhere_def filter_empty_conv set_allCoords cellAt_createEmptyBoard)

lemma resetGame_flagInv: "flagInv (resetGame s)"
  by (simp add: flagInv_def resetGame_def Let_def beginner_def wf_state_def
      wf_grid_createEmptyBoard countFlagged_def cellsWhere_createEmptyBoard emptyCell_def)

subsection \<open>Neighbours\<close>

lemma mem_offsets:
  "(x, y) \<in> set offsets \<longleftrightarrow> \<bar>x\<bar> \<le> 1 \<and> \<bar>y\<bar> \<le> 1 \<and> (x, y) \<noteq> (0, 0)"
proof
  assume "(x, y) \<in> set offsets"
  then have "(x = -1 \<or> x = 0 \<or> x = 1) \<and> (y = -1 \<or> y = 0 \<or> y = 1) \<and> (x, y) \<noteq> (0, 0)"
    unfolding offsets_eq by (simp, elim disjE; simp)
  then show "\<bar>x\<bar> \<le> 1 \<and> \<bar>y\<bar> \<le> 1 \<and> (x, y) \<noteq> (0, 0)" by (elim conjE disjE; simp)
next
  assume h: "\<bar>x\<bar> \<le> 1 \<and> \<bar>y\<bar> \<le> 1 \<and> (x, y) \<noteq> (0, 0)"
  then have "\<bar>x\<bar> \<le> 1" by simp
  then have x: "x = -1 \<or> x = 0 \<or> x = 1" by arith
  from h have "\<bar>y\<bar> \<le> 1" by simp
  then have y: "y = -1 \<or> y = 0 \<or> y = 1" by arith
  from h have n: "(x, y) \<noteq> (0, 0)" by simp
  from x y n show "(x, y) \<in> set offsets"
    unfolding offsets_eq by (elim disjE; simp)
qed

lemma distinct_getNeighbors: "distinct (getNeighbors rs cs p)"
proof -
  have "distinct offsets" by (simp add: offsets_eq)
  moreover have "inj_on (\<lambda>(dr, dc). (fst p + dr, snd p + dc)) (set offsets)"
    by (rule inj_onI) (simp add: split_def prod_eq_iff)
  ultimately show ?thesis
    unfolding getNeighbors_def by (simp add: distinct_map)
qed

lemma length_getNeighbors: "length (getNeighbors rs cs p) \<le> 8"
proof -
  have "length (getNeighbors rs cs p) \<le> length offsets"
    unfolding getNeighbors_def
    using length_filter_le [of _ "map (\<lambda>(dr, dc). (fst p + dr, snd p + dc)) offsets"]
    by (simp only: length_map)
  then show ?thesis by (simp add: offsets_eq)
qed

lemma set_getNeighbors:
  "set (getNeighbors rs cs p) =
     {q. inBounds rs cs q \<and> q \<noteq> p \<and> \<bar>fst q - fst p\<bar> \<le> 1 \<and> \<bar>snd q - snd p\<bar> \<le> 1}"
proof (rule set_eqI)
  fix q :: coord
  obtain a b where q: "q = (a, b)" by (cases q)
  obtain r c where p: "p = (r, c)" by (cases p)
  have 1: "(a, b) \<in> (\<lambda>(dr, dc). (r + dr, c + dc)) ` set offsets \<longleftrightarrow>
        (a - r, b - c) \<in> set offsets"
  proof
    assume "(a, b) \<in> (\<lambda>(dr, dc). (r + dr, c + dc)) ` set offsets"
    then obtain dr dc where "(dr, dc) \<in> set offsets" "a = r + dr" "b = c + dc" by auto
    then show "(a - r, b - c) \<in> set offsets" by simp
  next
    assume h: "(a - r, b - c) \<in> set offsets"
    have "(a, b) = (\<lambda>(dr, dc). (r + dr, c + dc)) (a - r, b - c)" by simp
    then show "(a, b) \<in> (\<lambda>(dr, dc). (r + dr, c + dc)) ` set offsets" using h by (rule image_eqI)
  qed
  have 2: "(a - r, b - c) \<in> set offsets \<longleftrightarrow> (a, b) \<noteq> (r, c) \<and> \<bar>a - r\<bar> \<le> 1 \<and> \<bar>b - c\<bar> \<le> 1"
    unfolding mem_offsets by auto
  have 3: "q \<in> set (getNeighbors rs cs p) \<longleftrightarrow>
      inBounds rs cs (a, b) \<and> (a, b) \<in> (\<lambda>(dr, dc). (r + dr, c + dc)) ` set offsets"
    unfolding getNeighbors_def p q inBounds_def by auto
  show "q \<in> set (getNeighbors rs cs p) \<longleftrightarrow>
     q \<in> {q. inBounds rs cs q \<and> q \<noteq> p \<and> \<bar>fst q - fst p\<bar> \<le> 1 \<and> \<bar>snd q - snd p\<bar> \<le> 1}"
    unfolding 3 1 2 unfolding p q by simp
qed

subsection \<open>Adjacency counts\<close>

lemma foldl_count:
  "foldl (\<lambda>acc n. acc + (if P n then 1 else 0)) (a :: int) xs = a + int (length (filter P xs))"
  by (induction xs arbitrary: a) simp_all

lemma countAdjacentMines_filter:
  "countAdjacentMines b rs cs p =
     int (length (filter (\<lambda>q. mine (cellAt b q)) (getNeighbors rs cs p)))"
  by (simp add: countAdjacentMines_def foldl_count)

lemma countAdjacentMines_bounds:
  "0 \<le> countAdjacentMines b rs cs p \<and> countAdjacentMines b rs cs p \<le> 8"
proof -
  have "length (filter (\<lambda>q. mine (cellAt b q)) (getNeighbors rs cs p)) \<le> 8"
    by (rule order_trans [OF length_filter_le length_getNeighbors])
  then show ?thesis
    by (simp add: countAdjacentMines_filter)
qed

lemma countAdjacentMines_brute:
  "countAdjacentMines b rs cs p = bruteForceCount b rs cs p"
proof -
  have "{x. mine (cellAt b x)} \<inter> set (getNeighbors rs cs p) =
        {x. kingMove p x \<and> mine (cellAt b x)} \<inter> set (allCoords rs cs)"
    by (auto simp add: set_getNeighbors set_allCoords kingMove_def)
  then show ?thesis
    by (simp add: countAdjacentMines_filter bruteForceCount_def
        distinct_length_filter [OF distinct_getNeighbors]
        distinct_length_filter [OF distinct_allCoords])
qed

lemma countAdjacentMines_cong:
  "(\<And>q. mine (cellAt b' q) = mine (cellAt b q)) \<Longrightarrow>
   countAdjacentMines b' rs cs p = countAdjacentMines b rs cs p"
  by (simp add: countAdjacentMines_def)

lemma setCell_adjacent_fields:
  "mine (cellAt (setCell b q ((cellAt b q)\<lparr>adjacent := v\<rparr>)) p) = mine (cellAt b p) \<and>
   flagged (cellAt (setCell b q ((cellAt b q)\<lparr>adjacent := v\<rparr>)) p) = flagged (cellAt b p) \<and>
   revealed (cellAt (setCell b q ((cellAt b q)\<lparr>adjacent := v\<rparr>)) p) = revealed (cellAt b p)"
  by (simp add: cellAt_setCell_gen cellAt_cong_nat [of p q])

lemma adjacentStep_fields:
  "mine (cellAt (adjacentStep rs cs q b) p) = mine (cellAt b p) \<and>
   flagged (cellAt (adjacentStep rs cs q b) p) = flagged (cellAt b p) \<and>
   revealed (cellAt (adjacentStep rs cs q b) p) = revealed (cellAt b p)"
  by (simp add: adjacentStep_def setCell_adjacent_fields)

lemma wf_grid_adjacentStep: "wf_grid rs cs b \<Longrightarrow> wf_grid rs cs (adjacentStep rs' cs' q b)"
  by (simp add: adjacentStep_def wf_grid_setCell)

lemma fold_adjacentStep:
  assumes "wf_grid rs cs b" "list_all (inBounds rs cs) xs"
  shows "wf_grid rs cs (fold (adjacentStep rs cs) xs b) \<and>
         (\<forall>q. mine (cellAt (fold (adjacentStep rs cs) xs b) q) = mine (cellAt b q) \<and>
              flagged (cellAt (fold (adjacentStep rs cs) xs b) q) = flagged (cellAt b q) \<and>
              revealed (cellAt (fold (adjacentStep rs cs) xs b) q) = revealed (cellAt b q)) \<and>
         (\<forall>q. inBounds rs cs q \<longrightarrow> q \<notin> set xs \<longrightarrow>
              cellAt (fold (adjacentStep rs cs) xs b) q = cellAt b q) \<and>
         (\<forall>q. inBounds rs cs q \<longrightarrow> q \<in> set xs \<longrightarrow> \<not> mine (cellAt b q) \<longrightarrow>
              adjacent (cellAt (fold (adjacentStep rs cs) xs b) q) = countAdjacentMines b rs cs q)"
  using assms
proof (induction xs arbitrary: b)
  case Nil
  then show ?case by simp
next
  case (Cons x xs)
  let ?b1 = "adjacentStep rs cs x b"
  let ?b' = "fold (adjacentStep rs cs) xs ?b1"
  from Cons.prems have x: "inBounds rs cs x" and xs: "list_all (inBounds rs cs) xs" by simp_all
  have w1: "wf_grid rs cs ?b1" using Cons.prems(1) by (rule wf_grid_adjacentStep)
  note IH = Cons.IH [OF w1 xs]
  note IH1 = IH [THEN conjunct1]
  note IH2 = IH [THEN conjunct2, THEN conjunct1, rule_format]
  note IH3 = IH [THEN conjunct2, THEN conjunct2, THEN conjunct1, rule_format]
  note IH4 = IH [THEN conjunct2, THEN conjunct2, THEN conjunct2, rule_format]
  have cnt: "\<And>q. countAdjacentMines ?b1 rs cs q = countAdjacentMines b rs cs q"
    by (rule countAdjacentMines_cong) (simp add: adjacentStep_fields)
  have other: "\<And>q. inBounds rs cs q \<Longrightarrow> q \<noteq> x \<Longrightarrow> cellAt ?b1 q = cellAt b q"
    by (simp add: adjacentStep_def cellAt_setCell [OF Cons.prems(1) x])
  have self: "\<not> mine (cellAt b x) \<Longrightarrow> adjacent (cellAt ?b1 x) = countAdjacentMines b rs cs x"
    by (simp add: adjacentStep_def cellAt_setCell [OF Cons.prems(1) x x])
  have 1: "wf_grid rs cs ?b'" using IH1 by simp
  have 2: "\<forall>q. mine (cellAt ?b' q) = mine (cellAt b q) \<and>
              flagged (cellAt ?b' q) = flagged (cellAt b q) \<and>
              revealed (cellAt ?b' q) = revealed (cellAt b q)"
    by (simp add: IH2 adjacentStep_fields)
  have 3: "\<forall>q. inBounds rs cs q \<longrightarrow> q \<notin> set (x # xs) \<longrightarrow> cellAt ?b' q = cellAt b q"
    by (simp add: IH3 other)
  have 4: "\<forall>q. inBounds rs cs q \<longrightarrow> q \<in> set (x # xs) \<longrightarrow> \<not> mine (cellAt b q) \<longrightarrow>
              adjacent (cellAt ?b' q) = countAdjacentMines b rs cs q"
  proof (intro allI impI)
    fix q assume q: "inBounds rs cs q" "q \<in> set (x # xs)" "\<not> mine (cellAt b q)"
    show "adjacent (cellAt ?b' q) = countAdjacentMines b rs cs q"
    proof (cases "q \<in> set xs")
      case True
      with q have "adjacent (cellAt ?b' q) = countAdjacentMines ?b1 rs cs q"
        by (intro IH4) (simp_all add: adjacentStep_fields)
      then show ?thesis by (simp add: cnt)
    next
      case False
      with q have qx: "q = x" by simp
      from False q have "cellAt ?b' q = cellAt ?b1 q" by (intro IH3) simp_all
      with self q qx show ?thesis by simp
    qed
  qed
  from 1 2 3 4 show ?case by simp
qed

lemma calcAdjacent_props:
  assumes "wf_grid rs cs b"
  shows "wf_grid rs cs (calcAdjacent rs cs b)"
    and "mine (cellAt (calcAdjacent rs cs b) q) = mine (cellAt b q)"
    and "flagged (cellAt (calcAdjacent rs cs b) q) = flagged (cellAt b q)"
    and "revealed (cellAt (calcAdjacent rs cs b) q) = revealed (cellAt b q)"
    and "inBounds rs cs q \<Longrightarrow> \<not> mine (cellAt b q) \<Longrightarrow>
           adjacent (cellAt (calcAdjacent rs cs b) q) = countAdjacentMines b rs cs q"
proof -
  have l: "list_all (inBounds rs cs) (allCoords rs cs)"
    by (simp add: list_all_iff set_allCoords)
  note f0 = fold_adjacentStep [OF assms l]
  note f1 = f0 [THEN conjunct1]
  note f2 = f0 [THEN conjunct2, THEN conjunct1, rule_format]
  note f4 = f0 [THEN conjunct2, THEN conjunct2, THEN conjunct2, rule_format]
  from f1 show "wf_grid rs cs (calcAdjacent rs cs b)" by (simp add: calcAdjacent_def)
  show "mine (cellAt (calcAdjacent rs cs b) q) = mine (cellAt b q)"
    by (simp add: calcAdjacent_def f2)
  show "flagged (cellAt (calcAdjacent rs cs b) q) = flagged (cellAt b q)"
    by (simp add: calcAdjacent_def f2)
  show "revealed (cellAt (calcAdjacent rs cs b) q) = revealed (cellAt b q)"
    by (simp add: calcAdjacent_def f2)
  assume "inBounds rs cs q" "\<not> mine (cellAt b q)"
  then show "adjacent (cellAt (calcAdjacent rs cs b) q) = countAdjacentMines b rs cs q"
    unfolding calcAdjacent_def by (intro f4) (simp_all add: set_allCoords)
qed

lemma placeMinesLoop_wf:
  "wf_grid rs cs b \<Longrightarrow> placeMinesLoop ds sz k mc b = Some b' \<Longrightarrow> wf_grid rs cs b'"
  by (induction ds sz k mc b rule: placeMinesLoop.induct)
     (auto simp add: wf_grid_setCell split: if_splits)

subsection \<open>Cells under the flood, and the placement loop\<close>

lemma floodStep_cells:
  "mine (cellAt (board (fst (floodStep n sq))) p) = mine (cellAt (board (fst sq)) p) \<and>
   flagged (cellAt (board (fst (floodStep n sq))) p) = flagged (cellAt (board (fst sq)) p) \<and>
   adjacent (cellAt (board (fst (floodStep n sq))) p) = adjacent (cellAt (board (fst sq)) p)"
  by (cases sq) (simp add: floodStep_def Let_def setCell_revealed_fields)

lemma fold_floodStep_cells:
  "mine (cellAt (board (fst (fold floodStep ns sq))) p) = mine (cellAt (board (fst sq)) p) \<and>
   flagged (cellAt (board (fst (fold floodStep ns sq))) p) = flagged (cellAt (board (fst sq)) p) \<and>
   adjacent (cellAt (board (fst (fold floodStep ns sq))) p) = adjacent (cellAt (board (fst sq)) p)"
  by (induction ns arbitrary: sq) (simp_all add: floodStep_cells)

lemma floodLoop_cells:
  "\<forall>p. mine (cellAt (board (floodLoop q v s)) p) = mine (cellAt (board s) p) \<and>
       flagged (cellAt (board (floodLoop q v s)) p) = flagged (cellAt (board s) p) \<and>
       adjacent (cellAt (board (floodLoop q v s)) p) = adjacent (cellAt (board s) p)"
proof (rule floodLoop_rule [where I = "\<lambda>q v t.
       \<forall>p. mine (cellAt (board t) p) = mine (cellAt (board s) p) \<and>
           flagged (cellAt (board t) p) = flagged (cellAt (board s) p) \<and>
           adjacent (cellAt (board t) p) = adjacent (cellAt (board s) p)"])
  fix c :: coord and q :: "coord list" and v :: "coord set" and t :: state
  assume "\<forall>p. mine (cellAt (board t) p) = mine (cellAt (board s) p) \<and>
           flagged (cellAt (board t) p) = flagged (cellAt (board s) p) \<and>
           adjacent (cellAt (board t) p) = adjacent (cellAt (board s) p)"
  then show "\<forall>p. mine (cellAt (board (fst (fold floodStep (getNeighbors (rows t) (cols t) c) (t, q)))) p) = mine (cellAt (board s) p) \<and>
           flagged (cellAt (board (fst (fold floodStep (getNeighbors (rows t) (cols t) c) (t, q)))) p) = flagged (cellAt (board s) p) \<and>
           adjacent (cellAt (board (fst (fold floodStep (getNeighbors (rows t) (cols t) c) (t, q)))) p) = adjacent (cellAt (board s) p)"
    by (simp add: fold_floodStep_cells)
qed simp_all

lemma cellsWhere_cong:
  "(\<And>q. inBounds rs cs q \<Longrightarrow> P (cellAt b' q) = P (cellAt b q)) \<Longrightarrow>
   cellsWhere P rs cs b' = cellsWhere P rs cs b"
  unfolding cellsWhere_def by (rule filter_cong) (simp_all add: set_allCoords)

lemma placeMinesLoop_count:
  assumes "wf_grid rs cs b" "list_all (inBounds rs cs) ds" "inBounds rs cs safe"
    and "placeMinesLoop ds {safe} k mc b = Some b'" "k \<le> mc"
  shows "int (length (cellsWhere mine rs cs b')) = int (length (cellsWhere mine rs cs b)) + (mc - k) \<and>
         mine (cellAt b' safe) = mine (cellAt b safe)"
  using assms
proof (induction ds "{safe}" k mc b rule: placeMinesLoop.induct)
  case (1 placed mc b)
  then show ?case by (simp split: if_splits)
next
  case (2 d ds placed mc b)
  from "2.prems" have d: "inBounds rs cs d" and ds: "list_all (inBounds rs cs) ds" by simp_all
  show ?case
  proof (cases "placed < mc")
    case False
    with "2.prems" show ?thesis by simp
  next
    case lt: True
    show ?thesis
    proof (cases "mine (cellAt b d) \<or> d = safe")
      case True
      with lt "2.prems" have r: "placeMinesLoop ds {safe} placed mc b = Some b'"
        by (auto split: if_splits)
      from True show ?thesis
      proof
        assume m: "mine (cellAt b d)"
        from "2.hyps"(1) [OF lt m "2.prems"(1) ds "2.prems"(3) r "2.prems"(5)] show ?thesis .
      next
        assume e: "d = safe"
        show ?thesis
        proof (cases "mine (cellAt b d)")
          case True
          from "2.hyps"(1) [OF lt True "2.prems"(1) ds "2.prems"(3) r "2.prems"(5)] show ?thesis .
        next
          case False
          from e have "d \<in> {safe}" by simp
          from "2.hyps"(2) [OF lt False this "2.prems"(1) ds "2.prems"(3) r "2.prems"(5)]
          show ?thesis .
        qed
      qed
    next
      case False
      then have nm: "\<not> mine (cellAt b d)" and ns: "d \<notin> {safe}" by simp_all
      let ?b1 = "setCell b d ((cellAt b d)\<lparr>mine := True\<rparr>)"
      from lt nm ns "2.prems" have r: "placeMinesLoop ds {safe} (placed + 1) mc ?b1 = Some b'"
        by simp
      have w1: "wf_grid rs cs ?b1" using "2.prems"(1) by (rule wf_grid_setCell)
      from lt have le: "placed + 1 \<le> mc" by simp
      note IH = "2.hyps"(3) [OF lt nm ns w1 ds "2.prems"(3) r le]
      have c1: "int (length (cellsWhere mine rs cs ?b1)) = int (length (cellsWhere mine rs cs b)) + 1"
        using count_setCell [OF "2.prems"(1) d, of mine "(cellAt b d)\<lparr>mine := True\<rparr>"] nm by simp
      have s1: "mine (cellAt ?b1 safe) = mine (cellAt b safe)"
        using cellAt_setCell [OF "2.prems"(1) d "2.prems"(3)] ns by simp
      from IH c1 s1 show ?thesis by simp
    qed
  qed
qed

subsection \<open>The parts of a reveal\<close>

lemma revealCell_unfold:
  "revealCell ds s p =
     (if revealed (cellAt (board s) p) \<or> flagged (cellAt (board s) p) then Some s
      else map_option (\<lambda>s1. finishReveal (markRevealed s1 p) p) (placeOnFirstClick ds s p))"
  by (simp add: revealCell_def placeOnFirstClick_def markRevealed_def floodIfZero_def
      finishReveal_def Let_def split: option.splits)

lemma markRevealed_cells:
  "mine (cellAt (board (markRevealed s p)) q) = mine (cellAt (board s) q)"
  "flagged (cellAt (board (markRevealed s p)) q) = flagged (cellAt (board s) q)"
  "adjacent (cellAt (board (markRevealed s p)) q) = adjacent (cellAt (board s) q)"
  by (simp_all add: markRevealed_def setCell_revealed_fields)

lemma markRevealed_fields [simp]:
  "gameOver (markRevealed s p) = gameOver s"
  "messageType (markRevealed s p) = messageType s"
  "firstClick (markRevealed s p) = firstClick s"
  "flagsPlaced (markRevealed s p) = flagsPlaced s"
  "rows (markRevealed s p) = rows s"
  "cols (markRevealed s p) = cols s"
  "mineCount (markRevealed s p) = mineCount s"
  "revealedCount (markRevealed s p) = revealedCount s + 1"
  by (simp_all add: markRevealed_def)

lemma floodIfZero_cells:
  "mine (cellAt (board (floodIfZero s p)) q) = mine (cellAt (board s) q)"
  "flagged (cellAt (board (floodIfZero s p)) q) = flagged (cellAt (board s) q)"
  "adjacent (cellAt (board (floodIfZero s p)) q) = adjacent (cellAt (board s) q)"
  by (simp_all add: floodIfZero_def floodReveal_def floodLoop_cells)

lemma floodIfZero_fields [simp]:
  "gameOver (floodIfZero s p) = gameOver s"
  "messageType (floodIfZero s p) = messageType s"
  "firstClick (floodIfZero s p) = firstClick s"
  "flagsPlaced (floodIfZero s p) = flagsPlaced s"
  "rows (floodIfZero s p) = rows s"
  "cols (floodIfZero s p) = cols s"
  "mineCount (floodIfZero s p) = mineCount s"
  by (simp_all add: floodIfZero_def floodReveal_def floodLoop_fields)

lemma finishReveal_mine:
  "mine (cellAt (board (finishReveal s p)) q) = mine (cellAt (board s) q)"
  by (simp add: finishReveal_def endGame_mine floodIfZero_cells)

lemma finishReveal_dims [simp]:
  "rows (finishReveal s p) = rows s" "cols (finishReveal s p) = cols s"
  "mineCount (finishReveal s p) = mineCount s"
  by (simp_all add: finishReveal_def)

lemma placeMinesLoop_returns:
  assumes "wf_grid rs cs b" "list_all (inBounds rs cs) ds"
    and "mc - k \<le> int (card (set ds - {safe} - {q. mine (cellAt b q)}))"
  shows "\<exists>b'. placeMinesLoop ds {safe} k mc b = Some b'"
  using assms
proof (induction ds arbitrary: b k)
  case Nil
  then show ?case by simp
next
  case (Cons d ds)
  from Cons.prems have d: "inBounds rs cs d" and ds: "list_all (inBounds rs cs) ds" by simp_all
  show ?case
  proof (cases "k < mc")
    case False
    then show ?thesis by simp
  next
    case lt: True
    show ?thesis
    proof (cases "mine (cellAt b d) \<or> d = safe")
      case True
      then have "set (d # ds) - {safe} - {q. mine (cellAt b q)} =
                 set ds - {safe} - {q. mine (cellAt b q)}" by auto
      with Cons.prems(3) have "mc - k \<le> int (card (set ds - {safe} - {q. mine (cellAt b q)}))"
        by simp
      from Cons.IH [OF Cons.prems(1) ds this] True lt show ?thesis by auto
    next
      case False
      let ?b1 = "setCell b d ((cellAt b d)\<lparr>mine := True\<rparr>)"
      let ?A = "set (d # ds) - {safe} - {q. mine (cellAt b q)}"
      have w1: "wf_grid rs cs ?b1" using Cons.prems(1) by (rule wf_grid_setCell)
      have sub: "?A - {d} \<subseteq> set ds - {safe} - {q. mine (cellAt ?b1 q)}"
      proof
        fix q assume q: "q \<in> ?A - {d}"
        then have qds: "q \<in> set ds" by auto
        with ds have "inBounds rs cs q" by (simp add: list_all_iff)
        with q have "cellAt ?b1 q = cellAt b q"
          using cellAt_setCell [OF Cons.prems(1) d, of q] by simp
        with q qds show "q \<in> set ds - {safe} - {q. mine (cellAt ?b1 q)}" by simp
      qed
      have "int (card ?A) \<le> int (card (?A - {d})) + 1"
        using card_remove_int [of ?A d] by simp
      moreover have "card (?A - {d}) \<le> card (set ds - {safe} - {q. mine (cellAt ?b1 q)})"
        by (rule card_mono [OF _ sub]) simp
      ultimately have "mc - (k + 1) \<le> int (card (set ds - {safe} - {q. mine (cellAt ?b1 q)}))"
        using Cons.prems(3) by simp
      from Cons.IH [OF w1 ds this] False lt show ?thesis by simp
    qed
  qed
qed

lemma createEmptyBoard_no_mine:
  "inBounds rs cs q \<Longrightarrow> \<not> mine (cellAt (createEmptyBoard rs cs) q)"
  by (simp add: cellAt_createEmptyBoard emptyCell_def)

lemma card_allCoords: "0 \<le> rs \<Longrightarrow> 0 \<le> cs \<Longrightarrow> int (card (set (allCoords rs cs))) = rs * cs"
  by (simp add: distinct_card [OF distinct_allCoords] allCoords_product)

subsection \<open>Revealed and flagged cells\<close>

lemma floodStep_revealed:
  "revealed (cellAt (board (fst (floodStep n sq))) q) \<longrightarrow>
     revealed (cellAt (board (fst sq)) q) \<or>
     (\<not> flagged (cellAt (board (fst sq)) q) \<and> \<not> mine (cellAt (board (fst sq)) q))"
  by (cases sq) (auto simp add: floodStep_def Let_def cellAt_setCell_gen cellAt_cong_nat [of q n]
      split: if_splits)

lemma fold_floodStep_revealed:
  "revealed (cellAt (board (fst (fold floodStep ns sq))) q) \<longrightarrow>
     revealed (cellAt (board (fst sq)) q) \<or>
     (\<not> flagged (cellAt (board (fst sq)) q) \<and> \<not> mine (cellAt (board (fst sq)) q))"
proof (induction ns arbitrary: sq)
  case Nil
  show ?case by simp
next
  case (Cons n ns)
  from Cons.IH [of "floodStep n sq"] floodStep_revealed [of n sq q] floodStep_cells [of n sq q]
  show ?case by auto
qed

lemma floodLoop_revealed:
  "\<forall>p. revealed (cellAt (board (floodLoop q v s)) p) \<longrightarrow>
       revealed (cellAt (board s) p) \<or>
       (\<not> flagged (cellAt (board s) p) \<and> \<not> mine (cellAt (board s) p))"
proof (rule floodLoop_rule [where I = "\<lambda>q v t.
       \<forall>p. (mine (cellAt (board t) p) = mine (cellAt (board s) p) \<and>
            flagged (cellAt (board t) p) = flagged (cellAt (board s) p)) \<and>
           (revealed (cellAt (board t) p) \<longrightarrow> revealed (cellAt (board s) p) \<or>
             (\<not> flagged (cellAt (board s) p) \<and> \<not> mine (cellAt (board s) p)))"])
  fix c :: coord and q :: "coord list" and v :: "coord set" and t :: state
  let ?t' = "fst (fold floodStep (getNeighbors (rows t) (cols t) c) (t, q))"
  assume a: "\<forall>p. (mine (cellAt (board t) p) = mine (cellAt (board s) p) \<and>
            flagged (cellAt (board t) p) = flagged (cellAt (board s) p)) \<and>
           (revealed (cellAt (board t) p) \<longrightarrow> revealed (cellAt (board s) p) \<or>
             (\<not> flagged (cellAt (board s) p) \<and> \<not> mine (cellAt (board s) p)))"
  show "\<forall>p. (mine (cellAt (board ?t') p) = mine (cellAt (board s) p) \<and>
            flagged (cellAt (board ?t') p) = flagged (cellAt (board s) p)) \<and>
           (revealed (cellAt (board ?t') p) \<longrightarrow> revealed (cellAt (board s) p) \<or>
             (\<not> flagged (cellAt (board s) p) \<and> \<not> mine (cellAt (board s) p)))"
  proof
    fix p
    from spec [OF a, of p] have ap: "mine (cellAt (board t) p) = mine (cellAt (board s) p)"
      "flagged (cellAt (board t) p) = flagged (cellAt (board s) p)"
      "revealed (cellAt (board t) p) \<longrightarrow> revealed (cellAt (board s) p) \<or>
             (\<not> flagged (cellAt (board s) p) \<and> \<not> mine (cellAt (board s) p))" by simp_all
    from fold_floodStep_revealed [of "getNeighbors (rows t) (cols t) c" "(t, q)" p]
      fold_floodStep_cells [of "getNeighbors (rows t) (cols t) c" "(t, q)" p] ap
    show "(mine (cellAt (board ?t') p) = mine (cellAt (board s) p) \<and>
            flagged (cellAt (board ?t') p) = flagged (cellAt (board s) p)) \<and>
           (revealed (cellAt (board ?t') p) \<longrightarrow> revealed (cellAt (board s) p) \<or>
             (\<not> flagged (cellAt (board s) p) \<and> \<not> mine (cellAt (board s) p)))"
      by auto
  qed
qed simp_all

lemma revealMineStep_cells:
  "flagged (cellAt (revealMineStep n b) q) = flagged (cellAt b q) \<and>
   (revealed (cellAt (revealMineStep n b) q) \<longrightarrow> revealed (cellAt b q) \<or> mine (cellAt b q))"
  by (auto simp add: revealMineStep_def Let_def cellAt_setCell_gen cellAt_cong_nat [of q n])

lemma fold_revealMineStep_cells:
  "flagged (cellAt (fold revealMineStep ns b) q) = flagged (cellAt b q) \<and>
   (revealed (cellAt (fold revealMineStep ns b) q) \<longrightarrow> revealed (cellAt b q) \<or> mine (cellAt b q))"
proof (induction ns arbitrary: b)
  case Nil
  show ?case by simp
next
  case (Cons n ns)
  from Cons.IH [of "revealMineStep n b"] revealMineStep_cells [of n b q]
    revealMineStep_mine [of n b q]
  show ?case by auto
qed

lemma revealAllMines_cells:
  "flagged (cellAt (board (revealAllMines w s)) q) = flagged (cellAt (board s) q) \<and>
   (revealed (cellAt (board (revealAllMines w s)) q) \<longrightarrow>
      revealed (cellAt (board s) q) \<or> mine (cellAt (board s) q))"
  using fold_revealMineStep_cells [of "allCoords (rows s) (cols s)" "board s" q]
  by (simp add: revealAllMines_def)

lemma endGame_cells:
  "flagged (cellAt (board (endGame w s)) q) = flagged (cellAt (board s) q) \<and>
   (revealed (cellAt (board (endGame w s)) q) \<longrightarrow>
     revealed (cellAt (board s) q) \<or> mine (cellAt (board s) q))"
  using revealAllMines_cells [of True "s\<lparr>gameOver := True, messageType := ''win''\<rparr>" q]
    revealAllMines_cells [of False "s\<lparr>gameOver := True, messageType := ''lose''\<rparr>" q]
  by (cases w) (simp_all add: endGame_def Let_def)

lemma noBothD:
  "noBoth s \<Longrightarrow> inBounds (rows s) (cols s) p \<Longrightarrow> flagged (cellAt (board s) p) \<Longrightarrow>
   \<not> revealed (cellAt (board s) p)"
  unfolding noBoth_def by blast

lemma noBoth_exposureInv: "noBoth s \<Longrightarrow> exposureInv s"
  by (auto simp add: noBoth_def exposureInv_def)

lemma exposureInv_noBoth: "exposureInv s \<Longrightarrow> \<not> gameOver s \<Longrightarrow> noBoth s"
  by (auto simp add: noBoth_def exposureInv_def)

lemma endGame_exposureInv:
  assumes "noBoth s"
  shows "exposureInv (endGame w s)"
  unfolding exposureInv_def
proof (intro allI impI)
  fix p
  assume p: "inBounds (rows (endGame w s)) (cols (endGame w s)) p"
    and r: "revealed (cellAt (board (endGame w s)) p)"
    and f: "flagged (cellAt (board (endGame w s)) p)"
  from p have p': "inBounds (rows s) (cols s) p" by simp
  from f have f': "flagged (cellAt (board s) p)" by (simp add: endGame_cells)
  from r have "revealed (cellAt (board s) p) \<or> mine (cellAt (board s) p)"
    using endGame_cells [of w s p] by simp
  moreover from assms p' f' have "\<not> revealed (cellAt (board s) p)"
    by (rule noBothD)
  ultimately show "gameOver (endGame w s) \<and> mine (cellAt (board (endGame w s)) p)"
    by (simp add: endGame_mine)
qed

lemma floodIfZero_noBoth:
  assumes "noBoth s"
  shows "noBoth (floodIfZero s p)"
proof (cases "adjacent (cellAt (board s) p) = 0")
  case False
  with assms show ?thesis by (simp add: floodIfZero_def)
next
  case True
  show ?thesis
    unfolding noBoth_def
  proof (intro allI impI)
    fix q
    assume q: "inBounds (rows (floodIfZero s p)) (cols (floodIfZero s p)) q"
    then have q': "inBounds (rows s) (cols s) q" by simp
    show "\<not> (revealed (cellAt (board (floodIfZero s p)) q) \<and>
              flagged (cellAt (board (floodIfZero s p)) q))"
    proof
      assume a: "revealed (cellAt (board (floodIfZero s p)) q) \<and>
              flagged (cellAt (board (floodIfZero s p)) q)"
      then have f: "flagged (cellAt (board s) q)" by (simp add: floodIfZero_cells)
      from a have "revealed (cellAt (board (floodLoop [p] {} s)) q)"
        using True by (simp add: floodIfZero_def floodReveal_def)
      with spec [OF floodLoop_revealed [of "[p]" "{}" s], of q] f
      have "revealed (cellAt (board s) q)" by simp
      with noBothD [OF assms q' f] show False by simp
    qed
  qed
qed

lemma finishReveal_exposureInv: "noBoth s \<Longrightarrow> exposureInv (finishReveal s p)"
  by (simp add: finishReveal_def endGame_exposureInv floodIfZero_noBoth noBoth_exposureInv)

lemma markRevealed_noBoth:
  assumes "noBoth s" "\<not> flagged (cellAt (board s) p)"
  shows "noBoth (markRevealed s p)"
  unfolding noBoth_def
proof (intro allI impI)
  fix q
  assume q: "inBounds (rows (markRevealed s p)) (cols (markRevealed s p)) q"
  then have q': "inBounds (rows s) (cols s) q" by simp
  show "\<not> (revealed (cellAt (board (markRevealed s p)) q) \<and>
            flagged (cellAt (board (markRevealed s p)) q))"
  proof (cases "nat (fst q) = nat (fst p) \<and> nat (snd q) = nat (snd p)")
    case True
    then have "cellAt (board s) q = cellAt (board s) p" by (intro cellAt_cong_nat) simp_all
    with assms(2) show ?thesis by (simp add: markRevealed_cells)
  next
    case False
    then have "cellAt (board (markRevealed s p)) q = cellAt (board s) q"
      by (auto simp add: markRevealed_def cellAt_setCell_gen)
    with noBothD [OF assms(1) q'] show ?thesis by auto
  qed
qed

lemma setCell_mine_fields:
  "flagged (cellAt (setCell b q ((cellAt b q)\<lparr>mine := v\<rparr>)) p) = flagged (cellAt b p) \<and>
   revealed (cellAt (setCell b q ((cellAt b q)\<lparr>mine := v\<rparr>)) p) = revealed (cellAt b p) \<and>
   adjacent (cellAt (setCell b q ((cellAt b q)\<lparr>mine := v\<rparr>)) p) = adjacent (cellAt b p)"
  by (simp add: cellAt_setCell_gen cellAt_cong_nat [of p q])

lemma placeMinesLoop_cells:
  "placeMinesLoop ds sz k mc b = Some b' \<Longrightarrow>
     flagged (cellAt b' q) = flagged (cellAt b q) \<and> revealed (cellAt b' q) = revealed (cellAt b q)"
  by (induction ds sz k mc b rule: placeMinesLoop.induct)
     (auto simp add: setCell_mine_fields split: if_splits)

lemma fold_adjacentStep_fields:
  "mine (cellAt (fold (adjacentStep rs cs) xs b) q) = mine (cellAt b q) \<and>
   flagged (cellAt (fold (adjacentStep rs cs) xs b) q) = flagged (cellAt b q) \<and>
   revealed (cellAt (fold (adjacentStep rs cs) xs b) q) = revealed (cellAt b q)"
  by (induction xs arbitrary: b) (simp_all add: adjacentStep_fields)

lemma placeMines_cells:
  assumes "placeMines ds s p = Some t"
  shows "flagged (cellAt (board t) q) = flagged (cellAt (board s) q) \<and>
         revealed (cellAt (board t) q) = revealed (cellAt (board s) q)"
proof -
  from assms obtain b where b: "placeMinesLoop ds {p} 0 (mineCount s) (board s) = Some b"
    and t: "t = s\<lparr>board := calcAdjacent (rows s) (cols s) b\<rparr>"
    by (auto simp add: placeMines_def split: option.splits)
  from placeMinesLoop_cells [OF b, of q] show ?thesis
    by (simp add: t calcAdjacent_def fold_adjacentStep_fields)
qed

lemma placeOnFirstClick_cells:
  assumes "placeOnFirstClick ds s p = Some t"
  shows "flagged (cellAt (board t) q) = flagged (cellAt (board s) q) \<and>
         revealed (cellAt (board t) q) = revealed (cellAt (board s) q) \<and>
         rows t = rows s \<and> cols t = cols s \<and> gameOver t = gameOver s"
proof (cases "firstClick s")
  case False
  with assms show ?thesis by (simp add: placeOnFirstClick_def)
next
  case True
  with assms obtain u where u: "placeMines ds s p = Some u" and t: "t = u\<lparr>firstClick := False\<rparr>"
    by (auto simp add: placeOnFirstClick_def)
  from placeMines_cells [OF u, of q] placeMines_fields [OF u] show ?thesis by (simp add: t)
qed

lemma placeOnFirstClick_noBoth:
  assumes "noBoth s" "placeOnFirstClick ds s p = Some t"
  shows "noBoth t"
  unfolding noBoth_def
proof (intro allI impI)
  fix q
  assume "inBounds (rows t) (cols t) q"
  with placeOnFirstClick_cells [OF assms(2), of q] noBothD [OF assms(1), of q]
  show "\<not> (revealed (cellAt (board t) q) \<and> flagged (cellAt (board t) q))" by auto
qed

lemma revealCell_exposureInv:
  assumes inv: "exposureInv s" and ng: "\<not> gameOver s" and r: "revealCell ds s p = Some s'"
  shows "exposureInv s'"
proof (cases "revealed (cellAt (board s) p) \<or> flagged (cellAt (board s) p)")
  case True
  with r inv show ?thesis by (simp add: revealCell_unfold)
next
  case False
  with r obtain t where t: "placeOnFirstClick ds s p = Some t"
    and s': "s' = finishReveal (markRevealed t p) p"
    by (auto simp add: revealCell_unfold)
  from inv ng have "noBoth s" by (rule exposureInv_noBoth)
  then have nt: "noBoth t" using t by (rule placeOnFirstClick_noBoth)
  from False placeOnFirstClick_cells [OF t, of p] have "\<not> flagged (cellAt (board t) p)" by simp
  with nt have "noBoth (markRevealed t p)" by (rule markRevealed_noBoth)
  then show ?thesis unfolding s' by (rule finishReveal_exposureInv)
qed

lemma onCellClick_exposureInv:
  "exposureInv s \<Longrightarrow> onCellClick ds s p = Some s' \<Longrightarrow> exposureInv s'"
  by (auto simp add: onCellClick_def split: if_splits intro: revealCell_exposureInv)

lemma toggleFlag_noBoth:
  assumes "noBoth s"
  shows "noBoth (toggleFlag s p)"
proof (cases "revealed (cellAt (board s) p)")
  case True
  with assms show ?thesis by (simp add: toggleFlag_def)
next
  case nr: False
  let ?b' = "setCell (board s) p ((cellAt (board s) p)\<lparr>flagged := \<not> flagged (cellAt (board s) p)\<rparr>)"
  from nr have b': "board (toggleFlag s p) = ?b'" by (simp add: toggleFlag_def Let_def)
  show ?thesis
    unfolding noBoth_def
  proof (intro allI impI)
    fix q
    assume "inBounds (rows (toggleFlag s p)) (cols (toggleFlag s p)) q"
    then have q': "inBounds (rows s) (cols s) q" by simp
    show "\<not> (revealed (cellAt (board (toggleFlag s p)) q) \<and>
              flagged (cellAt (board (toggleFlag s p)) q))"
    proof (cases "nat (fst q) = nat (fst p) \<and> nat (snd q) = nat (snd p)")
      case True
      then have e: "cellAt (board s) q = cellAt (board s) p" by (intro cellAt_cong_nat) simp_all
      have "revealed (cellAt ?b' q) = revealed (cellAt (board s) q)"
        by (simp add: cellAt_setCell_gen e)
      with nr e show ?thesis by (simp add: b')
    next
      case False
      then have "cellAt ?b' q = cellAt (board s) q" by (auto simp add: cellAt_setCell_gen)
      with noBothD [OF assms q'] show ?thesis by (auto simp add: b')
    qed
  qed
qed

lemma toggleFlag_gameOver [simp]: "gameOver (toggleFlag s p) = gameOver s"
  by (simp add: toggleFlag_def Let_def)

lemma onCellRightClick_exposureInv:
  assumes "exposureInv s"
  shows "exposureInv (onCellRightClick s p)"
proof (cases "gameOver s \<or> revealed (cellAt (board s) p)")
  case True
  with assms show ?thesis by (auto simp add: onCellRightClick_def)
next
  case False
  with assms have "noBoth s" by (simp add: exposureInv_noBoth)
  then have "noBoth (toggleFlag s p)" by (rule toggleFlag_noBoth)
  with False show ?thesis by (simp add: onCellRightClick_def noBoth_exposureInv)
qed

lemma resetGame_exposureInv: "exposureInv (resetGame s)"
  by (simp add: exposureInv_def resetGame_def Let_def cellAt_createEmptyBoard emptyCell_def)

subsection \<open>The flag counter in reachable states\<close>

lemma floodStep_wf:
  "wf_grid rs cs (board (fst sq)) \<Longrightarrow> wf_grid rs cs (board (fst (floodStep n sq)))"
  by (cases sq) (simp add: floodStep_def Let_def wf_grid_setCell)

lemma fold_floodStep_wf:
  "wf_grid rs cs (board (fst sq)) \<Longrightarrow> wf_grid rs cs (board (fst (fold floodStep ns sq)))"
  by (induction ns arbitrary: sq) (simp_all add: floodStep_wf)

lemma floodLoop_wf:
  assumes "wf_grid rs cs (board s)"
  shows "wf_grid rs cs (board (floodLoop q v s))"
proof (rule floodLoop_rule [where I = "\<lambda>q v t. wf_grid rs cs (board t)"])
  show "wf_grid rs cs (board s)" by (rule assms)
next
  fix c :: coord and q :: "coord list" and v :: "coord set" and t :: state
  assume "wf_grid rs cs (board t)"
  then show "wf_grid rs cs (board (fst (fold floodStep (getNeighbors (rows t) (cols t) c) (t, q))))"
    using fold_floodStep_wf [of rs cs "(t, q)"] by simp
qed simp_all

lemma fold_revealMineStep_wf:
  "wf_grid rs cs b \<Longrightarrow> wf_grid rs cs (fold revealMineStep ns b)"
  by (induction ns arbitrary: b) (simp_all add: revealMineStep_def Let_def wf_grid_setCell)

lemma endGame_wf: "wf_grid rs cs (board s) \<Longrightarrow> wf_grid rs cs (board (endGame w s))"
  by (simp add: endGame_def Let_def revealAllMines_def fold_revealMineStep_wf)

lemma finishReveal_wf: "wf_grid rs cs (board s) \<Longrightarrow> wf_grid rs cs (board (finishReveal s p))"
  by (simp add: finishReveal_def floodIfZero_def floodReveal_def endGame_wf floodLoop_wf)

lemma finishReveal_flagged:
  "flagged (cellAt (board (finishReveal s p)) q) = flagged (cellAt (board s) q)"
  by (simp add: finishReveal_def endGame_cells floodIfZero_cells)

lemma finishReveal_flagsPlaced [simp]: "flagsPlaced (finishReveal s p) = flagsPlaced s"
  by (simp add: finishReveal_def)

lemma placeOnFirstClick_wf:
  assumes "wf_grid (rows s) (cols s) (board s)" "placeOnFirstClick ds s p = Some t"
  shows "wf_grid (rows s) (cols s) (board t) \<and> flagsPlaced t = flagsPlaced s"
proof (cases "firstClick s")
  case False
  with assms show ?thesis by (simp add: placeOnFirstClick_def)
next
  case True
  with assms(2) obtain b where b: "placeMinesLoop ds {p} 0 (mineCount s) (board s) = Some b"
    and t: "t = s\<lparr>board := calcAdjacent (rows s) (cols s) b, firstClick := False\<rparr>"
    by (auto simp add: placeOnFirstClick_def placeMines_def split: option.splits)
  from assms(1) b have "wf_grid (rows s) (cols s) b" by (rule placeMinesLoop_wf)
  then have "wf_grid (rows s) (cols s) (calcAdjacent (rows s) (cols s) b)"
    by (rule calcAdjacent_props(1))
  then show ?thesis by (simp add: t)
qed

lemma flagInv_transfer:
  assumes "flagInv s" "rows t = rows s" "cols t = cols s" "wf_grid (rows s) (cols s) (board t)"
    and "flagsPlaced t = flagsPlaced s"
    and "\<And>q. flagged (cellAt (board t) q) = flagged (cellAt (board s) q)"
  shows "flagInv t"
proof -
  have "cellsWhere flagged (rows s) (cols s) (board t) = cellsWhere flagged (rows s) (cols s) (board s)"
    by (rule cellsWhere_cong) (simp add: assms(6))
  with assms(1-5) show ?thesis by (simp add: flagInv_def wf_state_def countFlagged_def)
qed

lemma revealCell_flagInv:
  assumes inv: "flagInv s" and r: "revealCell ds s p = Some s'"
  shows "flagInv s'"
proof (cases "revealed (cellAt (board s) p) \<or> flagged (cellAt (board s) p)")
  case True
  with r inv show ?thesis by (simp add: revealCell_unfold)
next
  case False
  with r obtain t where t: "placeOnFirstClick ds s p = Some t"
    and s': "s' = finishReveal (markRevealed t p) p"
    by (auto simp add: revealCell_unfold)
  from inv have w: "wf_grid (rows s) (cols s) (board s)" by (simp add: flagInv_def wf_state_def)
  note pt = placeOnFirstClick_wf [OF w t]
  note pc = placeOnFirstClick_cells [OF t]
  from pt have "wf_grid (rows s) (cols s) (board (markRevealed t p))"
    by (simp add: markRevealed_def wf_grid_setCell)
  then have 1: "wf_grid (rows s) (cols s) (board s')" unfolding s' by (rule finishReveal_wf)
  have 2: "rows s' = rows s" "cols s' = cols s" using pc [of p] by (simp_all add: s')
  have 3: "flagsPlaced s' = flagsPlaced s" using pt by (simp add: s')
  have 4: "\<And>q. flagged (cellAt (board s') q) = flagged (cellAt (board s) q)"
    using pc by (simp add: s' finishReveal_flagged markRevealed_cells)
  from inv 2 1 3 4 show ?thesis by (rule flagInv_transfer)
qed

lemma reachable_flagInv: "reachable s \<Longrightarrow> flagInv s"
proof (induction rule: reachable.induct)
  case (reach_reset s)
  show ?case by (rule resetGame_flagInv)
next
  case (reach_click s p ds s')
  then show ?case
    by (auto simp add: onCellClick_def split: if_splits intro: revealCell_flagInv)
next
  case (reach_flag s p)
  then show ?case by (simp add: onCellRightClick_def toggleFlag_flagInv)
qed

subsection \<open>The exposure of the mines at the end of the game\<close>

lemma revealMineStep_wf: "wf_grid rs cs b \<Longrightarrow> wf_grid rs cs (revealMineStep n b)"
  by (simp add: revealMineStep_def Let_def wf_grid_setCell)

lemma revealMineStep_reveals:
  assumes w: "wf_grid rs cs b" and n: "inBounds rs cs n" and q: "inBounds rs cs q"
    and m: "mine (cellAt b q)"
  shows "revealed (cellAt (revealMineStep n b) q) = (revealed (cellAt b q) \<or> q = n)"
proof (cases "mine (cellAt b n) \<and> \<not> revealed (cellAt b n)")
  case True
  then have "revealMineStep n b = setCell b n ((cellAt b n)\<lparr>revealed := True\<rparr>)"
    by (simp add: revealMineStep_def Let_def)
  then show ?thesis by (simp add: cellAt_setCell [OF w n q])
next
  case False
  then have e: "revealMineStep n b = b" by (auto simp add: revealMineStep_def Let_def)
  show ?thesis
  proof (cases "q = n")
    case True
    with False m show ?thesis by (simp add: e)
  next
    case False
    then show ?thesis by (simp add: e)
  qed
qed

lemma fold_revealMineStep_reveals:
  assumes "wf_grid rs cs b" "list_all (inBounds rs cs) ns" "inBounds rs cs q" "mine (cellAt b q)"
  shows "revealed (cellAt (fold revealMineStep ns b) q) = (revealed (cellAt b q) \<or> q \<in> set ns)"
  using assms
proof (induction ns arbitrary: b)
  case Nil
  show ?case by simp
next
  case (Cons n ns)
  from Cons.prems have n: "inBounds rs cs n" and ns: "list_all (inBounds rs cs) ns" by simp_all
  have w1: "wf_grid rs cs (revealMineStep n b)" using Cons.prems(1) by (rule revealMineStep_wf)
  have m1: "mine (cellAt (revealMineStep n b) q)" using Cons.prems(4) by (simp add: revealMineStep_mine)
  from Cons.IH [OF w1 ns Cons.prems(3) m1]
    revealMineStep_reveals [OF Cons.prems(1) n Cons.prems(3,4)]
  show ?case by auto
qed

lemma revealAllMines_reveals:
  assumes "wf_state s" "inBounds (rows s) (cols s) q" "mine (cellAt (board s) q)"
  shows "revealed (cellAt (board (revealAllMines w s)) q)"
proof -
  have l: "list_all (inBounds (rows s) (cols s)) (allCoords (rows s) (cols s))"
    by (simp add: list_all_iff set_allCoords)
  from assms(1) have wg: "wf_grid (rows s) (cols s) (board s)" by (simp add: wf_state_def)
  from fold_revealMineStep_reveals [OF wg l assms(2,3)] assms(2)
  show ?thesis by (simp add: revealAllMines_def set_allCoords)
qed

lemma endGame_reveals:
  assumes "wf_state s" "inBounds (rows s) (cols s) q" "mine (cellAt (board s) q)"
  shows "revealed (cellAt (board (endGame w s)) q)"
proof (cases w)
  case True
  have "wf_state (s\<lparr>gameOver := True, messageType := ''win''\<rparr>)"
    using assms(1) by (simp add: wf_state_def)
  from revealAllMines_reveals [OF this, of q True] assms(2,3) True show ?thesis
    by (simp add: endGame_def Let_def)
next
  case False
  have "wf_state (s\<lparr>gameOver := True, messageType := ''lose''\<rparr>)"
    using assms(1) by (simp add: wf_state_def)
  from revealAllMines_reveals [OF this, of q False] assms(2,3) False show ?thesis
    by (simp add: endGame_def Let_def)
qed

lemma endGame_minesExposed: "wf_state s \<Longrightarrow> minesExposed (endGame w s)"
  unfolding minesExposed_def
proof (intro impI allI)
  fix p
  assume w: "wf_state s" and p: "inBounds (rows (endGame w s)) (cols (endGame w s)) p"
    and m: "mine (cellAt (board (endGame w s)) p)"
  from p have p': "inBounds (rows s) (cols s) p" by simp
  from m have m': "mine (cellAt (board s) p)" by (simp add: endGame_mine)
  from w p' m' show "revealed (cellAt (board (endGame w s)) p)" by (rule endGame_reveals)
qed

lemma finishReveal_minesExposed:
  assumes w: "wf_state s" and ng: "\<not> gameOver s"
  shows "minesExposed (finishReveal s p)"
proof -
  have wf: "wf_state (floodIfZero s p)"
    using w floodLoop_fields [of "[p]" "{}" s]
    by (simp add: wf_state_def floodIfZero_def floodReveal_def floodLoop_wf)
  have "\<not> gameOver (floodIfZero s p)" using ng by simp
  then have "minesExposed (floodIfZero s p)" by (simp add: minesExposed_def)
  with w wf show ?thesis by (simp add: finishReveal_def endGame_minesExposed)
qed

lemma revealCell_minesExposed:
  assumes w: "wf_state s" and ng: "\<not> gameOver s" and r: "revealCell ds s p = Some s'"
  shows "minesExposed s'"
proof (cases "revealed (cellAt (board s) p) \<or> flagged (cellAt (board s) p)")
  case True
  with r ng show ?thesis by (simp add: revealCell_unfold minesExposed_def)
next
  case False
  with r obtain t where t: "placeOnFirstClick ds s p = Some t"
    and s': "s' = finishReveal (markRevealed t p) p"
    by (auto simp add: revealCell_unfold)
  from w have wg: "wf_grid (rows s) (cols s) (board s)" by (simp add: wf_state_def)
  note pt = placeOnFirstClick_wf [OF wg t]
  note pc = placeOnFirstClick_cells [OF t, of p]
  from pt pc have "wf_state (markRevealed t p)"
    by (simp add: wf_state_def markRevealed_def wf_grid_setCell)
  moreover from pc ng have "\<not> gameOver (markRevealed t p)" by simp
  ultimately show ?thesis unfolding s' by (rule finishReveal_minesExposed)
qed

lemma reachable_minesExposed: "reachable s \<Longrightarrow> minesExposed s"
proof (induction rule: reachable.induct)
  case (reach_reset s)
  show ?case by (simp add: minesExposed_def resetGame_def Let_def)
next
  case (reach_click s p ds s')
  from reach_click.hyps(1) have w: "wf_state s" using reachable_flagInv by (simp add: flagInv_def)
  show ?case
  proof (cases "gameOver s \<or> flagged (cellAt (board s) p)")
    case True
    with reach_click.hyps(4) reach_click.IH show ?thesis
      by (auto simp add: onCellClick_def split: if_splits)
  next
    case False
    with reach_click.hyps(4) have "revealCell ds s p = Some s'" by (simp add: onCellClick_def)
    with w False show ?thesis by (intro revealCell_minesExposed [of s ds p s']) simp_all
  qed
next
  case (reach_flag s p)
  show ?case
  proof (cases "gameOver s")
    case True
    with reach_flag.IH show ?thesis by (simp add: onCellRightClick_def)
  next
    case False
    then show ?thesis by (simp add: minesExposed_def onCellRightClick_def)
  qed
qed

lemma reachable_exposureInv: "reachable s \<Longrightarrow> exposureInv s"
proof (induction rule: reachable.induct)
  case (reach_reset s)
  show ?case by (rule resetGame_exposureInv)
next
  case (reach_click s p ds s')
  then show ?case by (simp add: onCellClick_exposureInv)
next
  case (reach_flag s p)
  then show ?case by (simp add: onCellRightClick_exposureInv)
qed

subsection \<open>The flood: one neighbour, one round, the loop\<close>

lemma floodStep_effect:
  assumes w: "wf_grid (rows t) (cols t) (board t)" and n: "inBounds (rows t) (cols t) n"
  shows "wf_grid (rows t) (cols t) (board (fst (floodStep n (t, q))))"
    and "inBounds (rows t) (cols t) x \<Longrightarrow>
           revealed (cellAt (board (fst (floodStep n (t, q)))) x) =
             (revealed (cellAt (board t) x) \<or> (x = n \<and> eligible (board t) n))"
    and "set (snd (floodStep n (t, q))) =
           set q \<union> (if eligible (board t) n \<and> \<not> 0 < adjacent (cellAt (board t) n) then {n} else {})"
proof -
  show "wf_grid (rows t) (cols t) (board (fst (floodStep n (t, q))))"
    using w by (simp add: floodStep_def Let_def wf_grid_setCell)
  show "set (snd (floodStep n (t, q))) =
           set q \<union> (if eligible (board t) n \<and> \<not> 0 < adjacent (cellAt (board t) n) then {n} else {})"
    by (simp add: floodStep_def Let_def eligible_def)
  assume x: "inBounds (rows t) (cols t) x"
  show "revealed (cellAt (board (fst (floodStep n (t, q)))) x) =
             (revealed (cellAt (board t) x) \<or> (x = n \<and> eligible (board t) n))"
  proof (cases "eligible (board t) n")
    case False
    then have "fst (floodStep n (t, q)) = t" by (auto simp add: floodStep_def Let_def eligible_def)
    with False show ?thesis by simp
  next
    case True
    then have "board (fst (floodStep n (t, q))) =
       setCell (board t) n ((cellAt (board t) n)\<lparr>revealed := True\<rparr>)"
      by (simp add: floodStep_def Let_def eligible_def)
    with True show ?thesis by (simp add: cellAt_setCell [OF w n x])
  qed
qed

lemma fold_floodStep_effect:
  assumes "wf_grid (rows t) (cols t) (board t)" "list_all (inBounds (rows t) (cols t)) ns"
  shows "wf_grid (rows t) (cols t) (board (fst (fold floodStep ns (t, q)))) \<and>
         (\<forall>x. inBounds (rows t) (cols t) x \<longrightarrow>
            revealed (cellAt (board (fst (fold floodStep ns (t, q)))) x) =
              (revealed (cellAt (board t) x) \<or> (x \<in> set ns \<and> eligible (board t) x))) \<and>
         set (snd (fold floodStep ns (t, q))) =
           set q \<union> {n \<in> set ns. eligible (board t) n \<and> \<not> 0 < adjacent (cellAt (board t) n)}"
  using assms
proof (induction ns arbitrary: t q)
  case Nil
  then show ?case by simp
next
  case (Cons n ns)
  obtain t1 q1 where e: "floodStep n (t, q) = (t1, q1)" by (cases "floodStep n (t, q)")
  from Cons.prems have n: "inBounds (rows t) (cols t) n"
    and ns: "list_all (inBounds (rows t) (cols t)) ns" by simp_all
  from floodStep_dims [of n "(t, q)"] e have dims: "rows t1 = rows t" "cols t1 = cols t" by simp_all
  note st = floodStep_effect [OF Cons.prems(1) n, where q = q, unfolded e fst_conv snd_conv]
  from st(1) have w1: "wf_grid (rows t1) (cols t1) (board t1)" by (simp add: dims)
  from ns have ns1: "list_all (inBounds (rows t1) (cols t1)) ns" by (simp add: dims)
  note IH = Cons.IH [OF w1 ns1, where q = q1, unfolded dims]
  note IH1 = IH [THEN conjunct1]
  note IH2 = IH [THEN conjunct2, THEN conjunct1, rule_format]
  note IH3 = IH [THEN conjunct2, THEN conjunct2]
  have cells: "\<And>x. mine (cellAt (board t1) x) = mine (cellAt (board t) x) \<and>
      flagged (cellAt (board t1) x) = flagged (cellAt (board t) x) \<and>
      adjacent (cellAt (board t1) x) = adjacent (cellAt (board t) x)"
    using floodStep_cells [of n "(t, q)"] e by simp
  have rev1: "\<And>x. inBounds (rows t) (cols t) x \<Longrightarrow>
      revealed (cellAt (board t1) x) = (revealed (cellAt (board t) x) \<or> (x = n \<and> eligible (board t) n))"
    by (rule st(2))
  have el1: "\<And>x. inBounds (rows t) (cols t) x \<Longrightarrow>
      eligible (board t1) x = (eligible (board t) x \<and> x \<noteq> n)"
    by (auto simp add: eligible_def cells rev1)
  have inb: "\<And>x. x \<in> set ns \<Longrightarrow> inBounds (rows t) (cols t) x"
    using ns by (simp add: list_all_iff)
  have 1: "wf_grid (rows t) (cols t) (board (fst (fold floodStep (n # ns) (t, q))))"
    using IH1 by (simp add: e)
  have 2: "\<forall>x. inBounds (rows t) (cols t) x \<longrightarrow>
            revealed (cellAt (board (fst (fold floodStep (n # ns) (t, q)))) x) =
              (revealed (cellAt (board t) x) \<or> (x \<in> set (n # ns) \<and> eligible (board t) x))"
  proof (intro allI impI)
    fix x assume x: "inBounds (rows t) (cols t) x"
    from IH2 [OF x] rev1 [OF x] el1 [OF x]
    show "revealed (cellAt (board (fst (fold floodStep (n # ns) (t, q)))) x) =
              (revealed (cellAt (board t) x) \<or> (x \<in> set (n # ns) \<and> eligible (board t) x))"
      by (auto simp add: e)
  qed
  have 3: "set (snd (fold floodStep (n # ns) (t, q))) =
           set q \<union> {n' \<in> set (n # ns). eligible (board t) n' \<and> \<not> 0 < adjacent (cellAt (board t) n')}"
  proof -
    have a: "{n' \<in> set ns. eligible (board t1) n' \<and> \<not> 0 < adjacent (cellAt (board t1) n')} =
             {n' \<in> set ns. eligible (board t) n' \<and> \<not> 0 < adjacent (cellAt (board t) n')} - {n}"
      using inb el1 by (auto simp add: cells)
    have "set (snd (fold floodStep (n # ns) (t, q))) =
          set q1 \<union> {n' \<in> set ns. eligible (board t1) n' \<and> \<not> 0 < adjacent (cellAt (board t1) n')}"
      using IH3 by (simp add: e)
    also have "\<dots> = (set q \<union> (if eligible (board t) n \<and> \<not> 0 < adjacent (cellAt (board t) n) then {n} else {}))
         \<union> ({n' \<in> set ns. eligible (board t) n' \<and> \<not> 0 < adjacent (cellAt (board t) n')} - {n})"
      by (simp only: st(3) a)
    also have "\<dots> = set q \<union> {n' \<in> set (n # ns). eligible (board t) n' \<and> \<not> 0 < adjacent (cellAt (board t) n')}"
      by auto
    finally show ?thesis .
  qed
  from 1 2 3 show ?case by blast
qed

lemma floodInvI:
  assumes "rows t = rows s" "cols t = cols s" "wf_grid (rows s) (cols s) (board t)"
    and "\<And>x. mine (cellAt (board t) x) = mine (cellAt (board s) x) \<and>
           flagged (cellAt (board t) x) = flagged (cellAt (board s) x) \<and>
           adjacent (cellAt (board t) x) = adjacent (cellAt (board s) x)"
    and "\<And>x. inBounds (rows s) (cols s) x \<Longrightarrow> revealed (cellAt (board s) x) \<Longrightarrow>
           revealed (cellAt (board t) x)"
    and "\<And>x. inBounds (rows s) (cols s) x \<Longrightarrow> revealed (cellAt (board t) x) \<Longrightarrow>
           revealed (cellAt (board s) x) \<or> floodArea s p x"
    and "\<And>z. z \<in> set queue \<Longrightarrow> floodSeed s p z"
    and "\<And>z. discovered s p t z \<Longrightarrow> z \<in> set queue \<or> expanded s t z"
    and "\<And>z. z \<in> visited \<Longrightarrow> expanded s t z"
  shows "floodInv s p queue visited t"
  unfolding floodInv_def using assms by blast

lemma floodInvD:
  assumes "floodInv s p queue visited t"
  shows "rows t = rows s" "cols t = cols s" "wf_grid (rows s) (cols s) (board t)"
    and "mine (cellAt (board t) x) = mine (cellAt (board s) x)"
    and "flagged (cellAt (board t) x) = flagged (cellAt (board s) x)"
    and "adjacent (cellAt (board t) x) = adjacent (cellAt (board s) x)"
    and "inBounds (rows s) (cols s) x \<Longrightarrow> revealed (cellAt (board s) x) \<Longrightarrow>
           revealed (cellAt (board t) x)"
    and "inBounds (rows s) (cols s) x \<Longrightarrow> revealed (cellAt (board t) x) \<Longrightarrow>
           revealed (cellAt (board s) x) \<or> floodArea s p x"
    and "z \<in> set queue \<Longrightarrow> floodSeed s p z"
    and "discovered s p t z \<Longrightarrow> z \<in> set queue \<or> expanded s t z"
    and "z \<in> visited \<Longrightarrow> expanded s t z"
  using assms unfolding floodInv_def by blast+

lemma expandedD:
  "expanded s t z \<Longrightarrow> n \<in> set (getNeighbors (rows s) (cols s) z) \<Longrightarrow>
   eligible (board s) n \<Longrightarrow> revealed (cellAt (board t) n)"
  unfolding expanded_def by blast

lemma floodInv_init:
  assumes "wf_state s"
  shows "floodInv s p [p] {} s"
proof (rule floodInvI)
  show "wf_grid (rows s) (cols s) (board s)" using assms by (simp add: wf_state_def)
  fix z assume "discovered s p s z"
  then show "z \<in> set [p] \<or> expanded s s z"
    by (auto simp add: discovered_def eligible_def)
next
  fix z assume "z \<in> set [p]"
  then show "floodSeed s p z" by (simp add: seed_start)
qed simp_all

lemma floodInv_skip:
  assumes I: "floodInv s p (c # q) v t" and cv: "c \<in> v"
  shows "floodInv s p q v t"
proof (rule floodInvI)
  fix z assume "discovered s p t z"
  with floodInvD(10) [OF I] have "z \<in> set (c # q) \<or> expanded s t z" by blast
  with floodInvD(11) [OF I cv] show "z \<in> set q \<or> expanded s t z" by auto
next
  fix z assume "z \<in> set q"
  then show "floodSeed s p z" using floodInvD(9) [OF I, of z] by simp
qed (simp_all add: floodInvD [OF I])

lemma adjacentOK_D:
  "adjacentOK s \<Longrightarrow> inBounds (rows s) (cols s) q \<Longrightarrow> 0 \<le> adjacent (cellAt (board s) q)"
  unfolding adjacentOK_def list_all_iff set_allCoords by blast

lemma floodInv_step:
  assumes I: "floodInv s p (c # q) v t" and nv: "c \<notin> v" and ok: "adjacentOK s"
  shows "floodInv s p (snd (fold floodStep (getNeighbors (rows t) (cols t) c) (t, q))) (insert c v)
           (fst (fold floodStep (getNeighbors (rows t) (cols t) c) (t, q)))"
proof -
  let ?ns = "getNeighbors (rows s) (cols s) c"
  let ?t' = "fst (fold floodStep ?ns (t, q))"
  let ?q' = "snd (fold floodStep ?ns (t, q))"
  note D = floodInvD [OF I]
  have dims: "rows t = rows s" "cols t = cols s" by (rule D)+
  have wt: "wf_grid (rows t) (cols t) (board t)" using D(3) by (simp add: dims)
  have nsb: "list_all (inBounds (rows t) (cols t)) ?ns"
    by (simp add: list_all_iff dims getNeighbors_inBounds)
  note eff = fold_floodStep_effect [OF wt nsb, where q = q, unfolded dims]
  have wt': "wf_grid (rows s) (cols s) (board ?t')" using eff by blast
  have rev': "\<And>x. inBounds (rows s) (cols s) x \<Longrightarrow>
      revealed (cellAt (board ?t') x) = (revealed (cellAt (board t) x) \<or> (x \<in> set ?ns \<and> eligible (board t) x))"
    using eff by blast
  have q': "set ?q' = set q \<union> {n \<in> set ?ns. eligible (board t) n \<and> \<not> 0 < adjacent (cellAt (board t) n)}"
    using eff by blast
  have dims': "rows ?t' = rows s" "cols ?t' = cols s"
    using fold_floodStep_dims [of ?ns "(t, q)"] by (simp_all add: dims)
  have cells': "\<And>x. mine (cellAt (board ?t') x) = mine (cellAt (board s) x) \<and>
           flagged (cellAt (board ?t') x) = flagged (cellAt (board s) x) \<and>
           adjacent (cellAt (board ?t') x) = adjacent (cellAt (board s) x)"
    using fold_floodStep_cells [of ?ns "(t, q)"] by (simp add: D(4,5,6))
  have el_ts: "\<And>x. inBounds (rows s) (cols s) x \<Longrightarrow> eligible (board t) x \<Longrightarrow> eligible (board s) x"
    using D(7) by (auto simp add: eligible_def D(4,5))
  have el_st: "\<And>x. eligible (board s) x \<Longrightarrow> \<not> revealed (cellAt (board t) x) \<Longrightarrow> eligible (board t) x"
    by (simp add: eligible_def D(4,5))
  have seed_c: "floodSeed s p c" by (rule D(9)) simp
  have mono: "\<And>z. expanded s t z \<Longrightarrow> expanded s ?t' z"
    unfolding expanded_def
  proof (intro ballI impI)
    fix z n
    assume a: "\<forall>n\<in>set (getNeighbors (rows s) (cols s) z). eligible (board s) n \<longrightarrow> revealed (cellAt (board t) n)"
      and n: "n \<in> set (getNeighbors (rows s) (cols s) z)" and e: "eligible (board s) n"
    from a n e have "revealed (cellAt (board t) n)" by blast
    with rev' [OF getNeighbors_inBounds [OF n]] show "revealed (cellAt (board ?t') n)" by simp
  qed
  have exp_c: "expanded s ?t' c"
    unfolding expanded_def
  proof (intro ballI impI)
    fix n assume n: "n \<in> set ?ns" and e: "eligible (board s) n"
    show "revealed (cellAt (board ?t') n)"
    proof (cases "revealed (cellAt (board t) n)")
      case True
      with rev' [OF getNeighbors_inBounds [OF n]] show ?thesis by simp
    next
      case False
      with e have "eligible (board t) n" by (rule el_st)
      with n rev' [OF getNeighbors_inBounds [OF n]] show ?thesis by simp
    qed
  qed
  have "floodInv s p ?q' (insert c v) ?t'"
  proof (rule floodInvI)
    show "rows ?t' = rows s" "cols ?t' = cols s" by (rule dims')+
    show "wf_grid (rows s) (cols s) (board ?t')" by (rule wt')
  next
    fix x
    show "mine (cellAt (board ?t') x) = mine (cellAt (board s) x) \<and>
           flagged (cellAt (board ?t') x) = flagged (cellAt (board s) x) \<and>
           adjacent (cellAt (board ?t') x) = adjacent (cellAt (board s) x)" by (rule cells')
  next
    fix x assume x: "inBounds (rows s) (cols s) x" and r: "revealed (cellAt (board s) x)"
    from D(7) [OF x r] rev' [OF x] show "revealed (cellAt (board ?t') x)" by simp
  next
    fix x assume x: "inBounds (rows s) (cols s) x" and r: "revealed (cellAt (board ?t') x)"
    show "revealed (cellAt (board s) x) \<or> floodArea s p x"
    proof (cases "revealed (cellAt (board t) x)")
      case True
      with D(8) [OF x] show ?thesis by simp
    next
      case False
      with r rev' [OF x] have xn: "x \<in> set ?ns" and xe: "eligible (board t) x" by simp_all
      from el_ts [OF x xe] seed_c xn have "floodArea s p x"
        unfolding floodArea_def by blast
      then show ?thesis by simp
    qed
  next
    fix z assume z: "z \<in> set ?q'"
    show "floodSeed s p z"
    proof (cases "z \<in> set q")
      case True
      then show ?thesis using D(9) [of z] by simp
    next
      case False
      with z q' have zn: "z \<in> set ?ns" and ze: "eligible (board t) z"
        and za: "\<not> 0 < adjacent (cellAt (board t) z)" by auto
      from zn have zb: "inBounds (rows s) (cols s) z" by (rule getNeighbors_inBounds)
      from za adjacentOK_D [OF ok zb] have "adjacent (cellAt (board s) z) = 0"
        by (simp add: D(6))
      with seed_c zn el_ts [OF zb ze] show ?thesis by (rule seed_step)
    qed
  next
    fix z assume d: "discovered s p ?t' z"
    show "z \<in> set ?q' \<or> expanded s ?t' z"
    proof (cases "discovered s p t z")
      case True
      with D(10) have "z \<in> set (c # q) \<or> expanded s t z" by blast
      then consider "z = c" | "z \<in> set q" | "expanded s t z" by auto
      then show ?thesis
      proof cases
        case 1 with exp_c show ?thesis by simp
      next
        case 2 with q' show ?thesis by simp
      next
        case 3 with mono show ?thesis by simp
      qed
    next
      case False
      with d have zb: "inBounds (rows s) (cols s) z" and ze: "eligible (board s) z"
        and za: "adjacent (cellAt (board s) z) = 0"
        and r': "revealed (cellAt (board ?t') z)" and r: "\<not> revealed (cellAt (board t) z)"
        by (auto simp add: discovered_def)
      from r' r rev' [OF zb] have "z \<in> set ?ns" "eligible (board t) z" by simp_all
      with za q' have "z \<in> set ?q'" by (simp add: D(6))
      then show ?thesis by simp
    qed
  next
    fix z assume "z \<in> insert c v"
    then have "z = c \<or> z \<in> v" by simp
    then show "expanded s ?t' z"
    proof
      assume "z = c" with exp_c show ?thesis by simp
    next
      assume "z \<in> v"
      then have "expanded s t z" by (rule D(11))
      then show ?thesis by (rule mono)
    qed
  qed
  then show ?thesis by (simp add: dims)
qed

lemma floodInv_final:
  assumes I: "floodInv s p [] v t" and x: "inBounds (rows s) (cols s) x"
  shows "revealed (cellAt (board t) x) = (revealed (cellAt (board s) x) \<or> floodArea s p x)"
proof -
  note D = floodInvD [OF I]
  have disc: "\<And>z. floodSeed s p z \<Longrightarrow> discovered s p t z"
  proof -
    fix z assume "floodSeed s p z"
    then show "discovered s p t z"
    proof (induction rule: floodSeed.induct)
      case seed_start
      show ?case by (simp add: discovered_def)
    next
      case (seed_step z n)
      from D(10) [OF seed_step.IH] have "expanded s t z" by simp
      from expandedD [OF this seed_step.hyps(2,3)] have "revealed (cellAt (board t) n)" .
      with seed_step.hyps(2,3,4) show ?case
        by (simp add: discovered_def getNeighbors_inBounds)
    qed
  qed
  show ?thesis
  proof
    assume "revealed (cellAt (board t) x)"
    with D(8) [OF x] show "revealed (cellAt (board s) x) \<or> floodArea s p x" by simp
  next
    assume "revealed (cellAt (board s) x) \<or> floodArea s p x"
    then show "revealed (cellAt (board t) x)"
    proof
      assume "revealed (cellAt (board s) x)"
      with D(7) [OF x] show ?thesis by simp
    next
      assume "floodArea s p x"
      then obtain z where e: "eligible (board s) x" and z: "floodSeed s p z"
        and n: "x \<in> set (getNeighbors (rows s) (cols s) z)"
        unfolding floodArea_def by blast
      from D(10) [OF disc [OF z]] have "expanded s t z" by simp
      from expandedD [OF this n e] show ?thesis .
    qed
  qed
qed

lemma floodReveal_revealed:
  assumes w: "wf_state s" and ok: "adjacentOK s" and x: "inBounds (rows s) (cols s) x"
  shows "revealed (cellAt (board (floodReveal s p)) x) =
           (revealed (cellAt (board s) x) \<or> floodArea s p x)"
  unfolding floodReveal_def
proof (rule floodLoop_rule [where I = "floodInv s p"
      and P = "\<lambda>t. revealed (cellAt (board t) x) = (revealed (cellAt (board s) x) \<or> floodArea s p x)"])
  show "floodInv s p [p] {} s" using w by (rule floodInv_init)
next
  fix c q v t assume "floodInv s p (c # q) v t" "c \<in> v"
  then show "floodInv s p q v t" by (rule floodInv_skip)
next
  fix c q v t assume "floodInv s p (c # q) v t" "c \<notin> v"
  then show "floodInv s p (snd (fold floodStep (getNeighbors (rows t) (cols t) c) (t, q)))
      (insert c v) (fst (fold floodStep (getNeighbors (rows t) (cols t) c) (t, q)))"
    using ok by (rule floodInv_step)
next
  fix v t assume "floodInv s p [] v t"
  then show "revealed (cellAt (board t) x) = (revealed (cellAt (board s) x) \<or> floodArea s p x)"
    using x by (rule floodInv_final)
qed

subsection \<open>The flood on a board without flags\<close>

text \<open>
  When the adjacency counts are exact, no cell is flagged and no cell but the start
  cell is revealed, the eligible cells the flood reaches are the region of the
  specification, and the flood from a revealed start cell without mines around it
  reveals that region and nothing else.
\<close>

lemma getNeighbors_kingMove:
  "n \<in> set (getNeighbors rs cs z) \<longleftrightarrow> inBounds rs cs n \<and> kingMove z n"
  by (simp add: set_getNeighbors kingMove_def)

lemma zero_no_mine_neighbour:
  assumes ex: "adjacentExact s" and z: "inBounds (rows s) (cols s) z"
    and nm: "\<not> mine (cellAt (board s) z)" and a: "adjacent (cellAt (board s) z) = 0"
    and n: "n \<in> set (getNeighbors (rows s) (cols s) z)"
  shows "\<not> mine (cellAt (board s) n)"
proof -
  from ex z nm have "adjacent (cellAt (board s) z) = countAdjacentMines (board s) (rows s) (cols s) z"
    unfolding adjacentExact_def list_all_iff set_allCoords by blast
  with a have "filter (\<lambda>q. mine (cellAt (board s) q)) (getNeighbors (rows s) (cols s) z) = []"
    by (simp add: countAdjacentMines_filter)
  with n show ?thesis by (simp add: filter_empty_conv)
qed

lemma clean_eligible:
  assumes "cleanBoard s p" "inBounds (rows s) (cols s) q" "q \<noteq> p" "\<not> mine (cellAt (board s) q)"
  shows "eligible (board s) q"
proof -
  from assms(1,2) have "\<not> flagged (cellAt (board s) q) \<and> (revealed (cellAt (board s) q) \<longrightarrow> q = p)"
    unfolding cleanBoard_def list_all_iff set_allCoords by blast
  with assms(3,4) show ?thesis by (simp add: eligible_def)
qed

lemma clean_seed_component:
  assumes ex: "adjacentExact s" and cl: "cleanBoard s p"
    and p: "inBounds (rows s) (cols s) p" and pm: "\<not> mine (cellAt (board s) p)"
    and pa: "adjacent (cellAt (board s) p) = 0"
  shows "zeroComponent s p z \<longleftrightarrow> floodSeed s p z"
proof
  assume "floodSeed s p z"
  then show "zeroComponent s p z"
  proof (induction rule: floodSeed.induct)
    case seed_start
    show ?case by (rule zc_start)
  next
    case (seed_step z n)
    from seed_step.hyps(2) have nb: "inBounds (rows s) (cols s) n" and km: "kingMove z n"
      by (simp_all add: getNeighbors_kingMove)
    from seed_step.IH nb km seed_step.hyps(4) show ?case by (rule zc_step)
  qed
next
  assume "zeroComponent s p z"
  then have "floodSeed s p z \<and> inBounds (rows s) (cols s) z \<and> \<not> mine (cellAt (board s) z) \<and>
             adjacent (cellAt (board s) z) = 0"
  proof (induction rule: zeroComponent.induct)
    case zc_start
    from p pm pa show ?case by (simp add: seed_start)
  next
    case (zc_step z n)
    from zc_step.hyps(2,3) have nn: "n \<in> set (getNeighbors (rows s) (cols s) z)"
      by (simp add: getNeighbors_kingMove)
    from zc_step.IH have zs: "floodSeed s p z" and zb: "inBounds (rows s) (cols s) z"
      and zm: "\<not> mine (cellAt (board s) z)" and za: "adjacent (cellAt (board s) z) = 0" by simp_all
    from zero_no_mine_neighbour [OF ex zb zm za nn] have nm: "\<not> mine (cellAt (board s) n)" .
    have "floodSeed s p n"
    proof (cases "n = p")
      case True
      then show ?thesis by (simp add: seed_start)
    next
      case False
      from clean_eligible [OF cl zc_step.hyps(2) False nm] have "eligible (board s) n" .
      with zs nn show ?thesis using zc_step.hyps(4) by (rule seed_step)
    qed
    with zc_step.hyps(2,4) nm show ?case by simp
  qed
  then show "floodSeed s p z" by simp
qed

lemma clean_area_spec:
  assumes ex: "adjacentExact s" and cl: "cleanBoard s p"
    and p: "inBounds (rows s) (cols s) p" and pm: "\<not> mine (cellAt (board s) p)"
    and pa: "adjacent (cellAt (board s) p) = 0" and pr: "revealed (cellAt (board s) p)"
    and x: "inBounds (rows s) (cols s) x"
  shows "(revealed (cellAt (board s) x) \<or> floodArea s p x) \<longleftrightarrow> specFlood s p x"
proof
  assume "revealed (cellAt (board s) x) \<or> floodArea s p x"
  then show "specFlood s p x"
  proof
    assume "revealed (cellAt (board s) x)"
    with cl x have "x = p" unfolding cleanBoard_def list_all_iff set_allCoords by blast
    then show ?thesis unfolding specFlood_def using zc_start [of s p] by blast
  next
    assume "floodArea s p x"
    then obtain z where z: "floodSeed s p z" and n: "x \<in> set (getNeighbors (rows s) (cols s) z)"
      unfolding floodArea_def by blast
    from z have "zeroComponent s p z" by (simp add: clean_seed_component [OF ex cl p pm pa])
    moreover from n have "inBounds (rows s) (cols s) x \<and> kingMove z x"
      by (simp add: getNeighbors_kingMove)
    ultimately show ?thesis unfolding specFlood_def by blast
  qed
next
  assume "specFlood s p x"
  then obtain z where zc: "zeroComponent s p z"
    and xz: "x = z \<or> (inBounds (rows s) (cols s) x \<and> kingMove z x)"
    unfolding specFlood_def by blast
  show "revealed (cellAt (board s) x) \<or> floodArea s p x"
  proof (cases "x = p")
    case True
    with pr show ?thesis by simp
  next
    case False
    have comp: "\<And>u. zeroComponent s p u \<Longrightarrow> inBounds (rows s) (cols s) u \<and>
           \<not> mine (cellAt (board s) u) \<and> adjacent (cellAt (board s) u) = 0"
    proof -
      fix u assume "zeroComponent s p u"
      then show "inBounds (rows s) (cols s) u \<and>
           \<not> mine (cellAt (board s) u) \<and> adjacent (cellAt (board s) u) = 0"
      proof (induction rule: zeroComponent.induct)
        case zc_start
        from p pm pa show ?case by simp
      next
        case (zc_step u n)
        from zc_step.hyps(2,3) have "n \<in> set (getNeighbors (rows s) (cols s) u)"
          by (simp add: getNeighbors_kingMove)
        from zero_no_mine_neighbour [OF ex _ _ _ this] zc_step.IH zc_step.hyps(2,4)
        show ?case by simp
      qed
    qed
    have "\<exists>z'. zeroComponent s p z' \<and> x \<in> set (getNeighbors (rows s) (cols s) z')"
    proof (cases "x = z")
      case True
      from zc show ?thesis
      proof (cases rule: zeroComponent.cases)
        case zc_start
        with True False show ?thesis by simp
      next
        case (zc_step z')
        from zc_step(2,3) True have "x \<in> set (getNeighbors (rows s) (cols s) z')"
          by (simp add: getNeighbors_kingMove)
        with zc_step(1) show ?thesis by blast
      qed
    next
      case nz: False
      with xz have "x \<in> set (getNeighbors (rows s) (cols s) z)"
        by (simp add: getNeighbors_kingMove)
      with zc show ?thesis by blast
    qed
    then obtain z0 where z0: "zeroComponent s p z0" "x \<in> set (getNeighbors (rows s) (cols s) z0)"
      by blast
    with comp [OF z0(1)] have "\<exists>z'. zeroComponent s p z' \<and> inBounds (rows s) (cols s) z' \<and>
               \<not> mine (cellAt (board s) z') \<and> adjacent (cellAt (board s) z') = 0 \<and>
               x \<in> set (getNeighbors (rows s) (cols s) z')" by blast
    then obtain z' where z': "zeroComponent s p z'" "inBounds (rows s) (cols s) z'"
      "\<not> mine (cellAt (board s) z')" "adjacent (cellAt (board s) z') = 0"
      "x \<in> set (getNeighbors (rows s) (cols s) z')" by blast
    from zero_no_mine_neighbour [OF ex z'(2,3,4,5)] have "\<not> mine (cellAt (board s) x)" .
    from clean_eligible [OF cl x False this] have "eligible (board s) x" .
    moreover from z'(1) have "floodSeed s p z'" by (simp add: clean_seed_component [OF ex cl p pm pa])
    ultimately have "floodArea s p x" unfolding floodArea_def using z'(5) by blast
    then show ?thesis by simp
  qed
qed

lemma flood_on_clean_board:
  assumes "wf_state s" "adjacentOK s" "adjacentExact s" "cleanBoard s p"
    and "inBounds (rows s) (cols s) p" "\<not> mine (cellAt (board s) p)"
    and "adjacent (cellAt (board s) p) = 0" "revealed (cellAt (board s) p)"
    and "inBounds (rows s) (cols s) x"
  shows "revealed (cellAt (board (floodReveal s p)) x) = specFlood s p x"
  using floodReveal_revealed [OF assms(1,2,9), of p] clean_area_spec [OF assms(3-9)]
  by simp

subsection \<open>The sample games\<close>

lemma openedGame_reachable: "reachable openedGame"
proof -
  have r: "reachable freshGame" unfolding freshGame_def by (rule reach_reset)
  have i: "inBounds (rows freshGame) (cols freshGame) (0, 0)" by code_simp
  have v: "validDraws (rows freshGame) (cols freshGame) draws1" by code_simp
  have "onCellClick draws1 freshGame (0, 0) \<noteq> None" by code_simp
  then have "onCellClick draws1 freshGame (0, 0) = Some openedGame"
    by (simp add: openedGame_def)
  with r i v show ?thesis by (rule reach_click)
qed

lemma lostGame_reachable: "reachable lostGame"
proof -
  have i: "inBounds (rows openedGame) (cols openedGame) (0, 1)" by code_simp
  with openedGame_reachable have r: "reachable flaggedMineGame"
    unfolding flaggedMineGame_def by (rule reach_flag)
  have j: "inBounds (rows flaggedMineGame) (cols flaggedMineGame) (0, 2)" by code_simp
  have v: "validDraws (rows flaggedMineGame) (cols flaggedMineGame) []"
    by (simp add: validDraws_def)
  have "onCellClick [] flaggedMineGame (0, 2) \<noteq> None" by code_simp
  then have "onCellClick [] flaggedMineGame (0, 2) = Some lostGame"
    by (simp add: lostGame_def)
  with r j v show ?thesis by (rule reach_click)
qed

lemma lostGame_flagged_mine:
  "inBounds (rows lostGame) (cols lostGame) (0, 1)"
  "revealed (cellAt (board lostGame) (0, 1))"
  "flagged (cellAt (board lostGame) (0, 1))"
  by code_simp+

lemma lostGame_open_mine:
  "inBounds (rows lostGame) (cols lostGame) (0, 3)"
  "mine (cellAt (board lostGame) (0, 3))"
  "\<not> flagged (cellAt (board lostGame) (0, 3))"
  by code_simp+

lemma flaggedMineGame_reachable: "reachable flaggedMineGame"
proof -
  have "inBounds (rows openedGame) (cols openedGame) (0, 1)" by code_simp
  with openedGame_reachable show ?thesis
    unfolding flaggedMineGame_def by (rule reach_flag)
qed

lemma flaggedMineGame_mine:
  "inBounds (rows flaggedMineGame) (cols flaggedMineGame) (0, 1)"
  "mine (cellAt (board flaggedMineGame) (0, 1))"
  "flagged (cellAt (board flaggedMineGame) (0, 1))"
  "\<not> revealed (cellAt (board flaggedMineGame) (0, 1))"
  by code_simp+

lemma floodEntry_facts:
  "wf_state floodEntry" "adjacentOK floodEntry"
  "adjacent (cellAt (board floodEntry) (4, 4)) = 0"
  "(4, 5) \<in> set (getNeighbors (rows floodEntry) (cols floodEntry) (4, 4))"
  "(4, 3) \<in> set (getNeighbors (rows floodEntry) (cols floodEntry) (4, 4))"
  "inBounds (rows floodEntry) (cols floodEntry) (4, 5)"
  "inBounds (rows floodEntry) (cols floodEntry) (4, 3)"
  "eligible (board floodEntry) (4, 3)"
  "\<not> eligible (board floodEntry) (4, 5)"
  "\<not> revealed (cellAt (board floodEntry) (4, 5))"
  "kingMove (4, 4) (4, 5)"
  by code_simp+

section \<open>The claims\<close>

subsection \<open>C8: revealing a flagged cell does nothing\<close>



subsection \<open>C10: toggling a flag twice\<close>

text \<open>
  C10. On a covered cell of the board, two calls of \<open>toggleFlag\<close> in a row give back
  the state they started from: the flag of the cell, \<open>flagsPlaced\<close>, every other cell
  and every other variable.
\<close>

theorem toggleFlag_involution:
  assumes "wf_state s" "inBounds (rows s) (cols s) p" "\<not> revealed (cellAt (board s) p)"
  shows "toggleFlag (toggleFlag s p) p = s"
proof -
  from assms(1,2) have sl: "nat (fst p) < length (board s)"
      "nat (snd p) < length (board s ! nat (fst p))"
    using wf_slot [of "rows s" "cols s" "board s" p] by (simp_all add: wf_state_def)
  have c: "\<And>v. flagged (cellAt (board s) p) = v \<Longrightarrow>
      setCell (board s) p ((cellAt (board s) p)\<lparr>flagged := v\<rparr>) = board s"
    by (auto simp add: setCell_same)
  show ?thesis using assms(3) sl
    by (simp add: toggleFlag_def Let_def cellAt_setCell_gen setCell_setCell c)
qed

theorem toggleFlag_involution_witness:
  "wf_state freshGame \<and> inBounds (rows freshGame) (cols freshGame) (0, 0) \<and>
   \<not> revealed (cellAt (board freshGame) (0, 0)) \<and>
   toggleFlag (toggleFlag freshGame (0, 0)) (0, 0) = freshGame"
proof -
  have 1: "wf_state freshGame" by code_simp
  have 2: "inBounds (rows freshGame) (cols freshGame) (0, 0)" by code_simp
  have 3: "\<not> revealed (cellAt (board freshGame) (0, 0))" by code_simp
  from toggleFlag_involution [OF 1 2 3] 1 2 3 show ?thesis by simp
qed

subsection \<open>C5: revealing a mine loses the game\<close>

text \<open>
  C5. In a game in progress, a click on a covered mine returns, and when it reveals the
  cell the game is lost within that command, whatever number of safe cells is still
  covered. The click reveals the cell whenever the cell is not flagged (a click on a
  flagged cell is not carried out, see C8), and then \<open>revealCell\<close> itself gives the same
  lost game.
\<close>

theorem reveal_mine_lost:
  assumes "phaseOf s = InProgress"
    and "mine (cellAt (board s) p)" and "\<not> revealed (cellAt (board s) p)"
  shows "\<exists>s'. onCellClick ds s p = Some s' \<and>
              (revealed (cellAt (board s') p) \<longrightarrow> phaseOf s' = Lost) \<and>
              (\<not> flagged (cellAt (board s) p) \<longrightarrow>
                 phaseOf s' = Lost \<and> revealCell ds s p = Some s')"
proof (cases "flagged (cellAt (board s) p)")
  case True
  with assms(3) show ?thesis by (simp add: onCellClick_def)
next
  case False
  from assms(1) have g: "\<not> gameOver s" "\<not> firstClick s"
    by (simp_all add: phaseOf_def split: if_splits)
  have "mine (cellAt (setCell (board s) p ((cellAt (board s) p)\<lparr>revealed := True\<rparr>)) p)"
    using assms(2) by (simp add: setCell_revealed_fields)
  then have "revealCell ds s p =
     Some (endGame False (s\<lparr>board := setCell (board s) p ((cellAt (board s) p)\<lparr>revealed := True\<rparr>),
                             revealedCount := revealedCount s + 1\<rparr>))"
    using g assms(3) False by (simp add: revealCell_def Let_def)
  then show ?thesis using g False by (simp add: onCellClick_def phaseOf_endGame)
qed

text \<open>In the sample game the click on the mine on \<open>(0, 1)\<close> loses the game.\<close>

theorem reveal_mine_lost_witness:
  "phaseOf openedGame = InProgress \<and> mine (cellAt (board openedGame) (0, 1)) \<and>
   \<not> revealed (cellAt (board openedGame) (0, 1)) \<and>
   \<not> flagged (cellAt (board openedGame) (0, 1)) \<and>
   (\<exists>s'. onCellClick [] openedGame (0, 1) = Some s' \<and>
         revealCell [] openedGame (0, 1) = Some s' \<and> phaseOf s' = Lost)"
proof -
  have 1: "phaseOf openedGame = InProgress" by code_simp
  have 2: "mine (cellAt (board openedGame) (0, 1))" by code_simp
  have 3: "\<not> revealed (cellAt (board openedGame) (0, 1))" by code_simp
  have 4: "\<not> flagged (cellAt (board openedGame) (0, 1))" by code_simp
  from reveal_mine_lost [OF 1 2 3, of "[]"] 4
  have "\<exists>s'. onCellClick [] openedGame (0, 1) = Some s' \<and>
         revealCell [] openedGame (0, 1) = Some s' \<and> phaseOf s' = Lost" by blast
  with 1 2 3 4 show ?thesis by simp
qed

subsection \<open>C4: the winning reveal, and the final phases\<close>

text \<open>
  C4. When a click that hits no mine changes \<open>revealedCount\<close> and brings it to
  \<open>rows * cols - mineCount\<close>, the game is won after that same click. Once the phase is
  \<open>Won\<close> or \<open>Lost\<close>, a click and a right click return the state unchanged: no cell and no
  counter is written.
\<close>

theorem win_on_last_safe_cell_and_terminal_phases:
  "(\<not> gameOver s \<and> onCellClick ds s p = Some s' \<and> revealedCount s' \<noteq> revealedCount s \<and>
      \<not> mine (cellAt (board s') p) \<and> revealedCount s' = rows s' * cols s' - mineCount s'
      \<longrightarrow> phaseOf s' = Won) \<and>
   (phaseOf t = Won \<or> phaseOf t = Lost
      \<longrightarrow> onCellClick ds' t q = Some t \<and> onCellRightClick t q = t)"
proof (intro conjI impI)
  assume h: "\<not> gameOver s \<and> onCellClick ds s p = Some s' \<and> revealedCount s' \<noteq> revealedCount s \<and>
      \<not> mine (cellAt (board s') p) \<and> revealedCount s' = rows s' * cols s' - mineCount s'"
  then have "revealCell ds s p = Some s'"
    by (auto simp add: onCellClick_def split: if_splits)
  with h show "phaseOf s' = Won" by (intro revealCell_win [of s ds p s']) simp_all
next
  assume "phaseOf t = Won \<or> phaseOf t = Lost"
  then have g: "gameOver t" by (auto simp add: phaseOf_def split: if_splits)
  then show "onCellClick ds' t q = Some t" by (simp add: onCellClick_def)
  from g show "onCellRightClick t q = t" by (simp add: onCellRightClick_def)
qed

theorem win_on_last_safe_cell_and_terminal_phases_witness:
  "\<not> gameOver freshGame \<and> onCellClick draws1 freshGame (4, 4) = Some wonGame \<and>
   revealedCount wonGame = 71 \<and> phaseOf wonGame = Won \<and>
   onCellClick [] wonGame (0, 0) = Some wonGame \<and> onCellRightClick wonGame (0, 0) = wonGame"
proof -
  have 1: "\<not> gameOver freshGame" by code_simp
  have "onCellClick draws1 freshGame (4, 4) \<noteq> None" by code_simp
  then have 2: "onCellClick draws1 freshGame (4, 4) = Some wonGame"
    by (simp add: wonGame_def)
  have 3: "revealedCount wonGame \<noteq> revealedCount freshGame" by code_simp
  have 4: "\<not> mine (cellAt (board wonGame) (4, 4))" by code_simp
  have 5: "revealedCount wonGame = rows wonGame * cols wonGame - mineCount wonGame"
    by code_simp
  have 6: "revealedCount wonGame = 71" by code_simp
  note t = win_on_last_safe_cell_and_terminal_phases
             [of freshGame draws1 "(4, 4)" wonGame wonGame "[]" "(0, 0)"]
  from t 1 2 3 4 5 have w: "phaseOf wonGame = Won" by blast
  with t have "onCellClick [] wonGame (0, 0) = Some wonGame \<and>
               onCellRightClick wonGame (0, 0) = wonGame" by blast
  with 1 2 6 w show ?thesis by simp
qed

subsection \<open>C9: reset and its configuration\<close>

text \<open>
  C9 does not hold as stated: \<open>reset\<close> checks nothing and never fails. A call with zero
  rows and columns is answered like any other, with a new beginner board.
\<close>

theorem reset_invalid_config_counterexample:
  "reset \<lparr>cfg_rows = 0, cfg_cols = 0, cfg_mineCount = 5\<rparr> initialState \<noteq> Inl InvalidDimensions \<and>
   reset \<lparr>cfg_rows = 2, cfg_cols = 2, cfg_mineCount = 4\<rparr> initialState \<noteq> Inl TooManyMines"
  by (simp add: reset_def)

text \<open>
  C9, amended. \<open>reset\<close> takes no configuration into account and cannot fail: from
  every state and for every configuration passed to it, it succeeds and installs the
  beginner board of 9 rows, 9 columns and 10 mines, with every cell covered, unflagged
  and free of mines, both counters at zero and the phase \<open>NotStarted\<close>.
\<close>

theorem reset_always_beginner:
  "\<exists>s'. reset cfg s = Inr s' \<and> rows s' = 9 \<and> cols s' = 9 \<and> mineCount s' = 10 \<and>
        board s' = createEmptyBoard 9 9 \<and> revealedCount s' = 0 \<and> flagsPlaced s' = 0 \<and>
        phaseOf s' = NotStarted"
  by (simp add: reset_def resetGame_def Let_def beginner_def phaseOf_def)

subsection \<open>C7: the flag counter\<close>

text \<open>
  C7. After any sequence of \<open>toggleFlag\<close> calls on cells of a freshly reset board (no
  cell of it is revealed), \<open>flagsPlaced\<close> equals the number of cells whose \<open>flagged\<close>
  field is set. The same holds in every state reachable by clicks and right clicks, that
  is also when the toggles come between reveals.
\<close>

theorem flagsPlaced_counts_flags:
  "(list_all (inBounds (rows (resetGame s)) (cols (resetGame s))) ps \<longrightarrow>
      flagsPlaced (foldl toggleFlag (resetGame s) ps) =
        countFlagged (foldl toggleFlag (resetGame s) ps)) \<and>
   (reachable t \<longrightarrow> flagsPlaced t = countFlagged t)"
proof (intro conjI impI)
  assume "list_all (inBounds (rows (resetGame s)) (cols (resetGame s))) ps"
  from foldl_toggleFlag_flagInv [OF resetGame_flagInv this]
  show "flagsPlaced (foldl toggleFlag (resetGame s) ps) =
        countFlagged (foldl toggleFlag (resetGame s) ps)" by (simp add: flagInv_def)
next
  assume "reachable t"
  then have "flagInv t" by (rule reachable_flagInv)
  then show "flagsPlaced t = countFlagged t" by (simp add: flagInv_def)
qed

theorem flagsPlaced_counts_flags_witness:
  "list_all (inBounds (rows (resetGame initialState)) (cols (resetGame initialState)))
     [(0, 0), (3, 4), (0, 0), (8, 8)] \<and>
   flagsPlaced (foldl toggleFlag (resetGame initialState) [(0, 0), (3, 4), (0, 0), (8, 8)]) = 2 \<and>
   countFlagged (foldl toggleFlag (resetGame initialState) [(0, 0), (3, 4), (0, 0), (8, 8)]) = 2 \<and>
   reachable lostGame \<and> flagsPlaced lostGame = 1 \<and> countFlagged lostGame = 1"
proof -
  have 1: "list_all (inBounds (rows (resetGame initialState)) (cols (resetGame initialState)))
     [(0, 0), (3, 4), (0, 0), (8, 8)]" by code_simp
  have 2: "flagsPlaced (foldl toggleFlag (resetGame initialState) [(0, 0), (3, 4), (0, 0), (8, 8)]) = 2"
    by code_simp
  have 3: "flagsPlaced lostGame = 1" by code_simp
  note t = flagsPlaced_counts_flags
             [of initialState "[(0, 0), (3, 4), (0, 0), (8, 8)]" lostGame]
  from t 1 2 have 4:
    "countFlagged (foldl toggleFlag (resetGame initialState) [(0, 0), (3, 4), (0, 0), (8, 8)]) = 2"
    by simp
  from t lostGame_reachable 3 have 5: "countFlagged lostGame = 1" by simp
  from 1 2 3 4 5 lostGame_reachable show ?thesis by simp
qed

subsection \<open>C2: adjacency counts\<close>

text \<open>
  C2. When \<open>placeMines\<close> has run on a well-formed board, the \<open>adjacent\<close> field of every
  cell of the board that is not a mine equals the number of cells of the board a king
  move away from it that are mines, as a scan over the whole board counts them; the
  value lies between 0 and 8.
\<close>

theorem adjacent_counts_mines:
  assumes w: "wf_state s" and pm: "placeMines ds s safe = Some s'"
    and p: "inBounds (rows s') (cols s') p" and nm: "\<not> mine (cellAt (board s') p)"
  shows "adjacent (cellAt (board s') p) = bruteForceCount (board s') (rows s') (cols s') p \<and>
         0 \<le> adjacent (cellAt (board s') p) \<and> adjacent (cellAt (board s') p) \<le> 8"
proof -
  from pm obtain b where b: "placeMinesLoop ds {safe} 0 (mineCount s) (board s) = Some b"
    and s': "s' = s\<lparr>board := calcAdjacent (rows s) (cols s) b\<rparr>"
    by (auto simp add: placeMines_def split: option.splits)
  from w b have wb: "wf_grid (rows s) (cols s) b"
    by (simp add: wf_state_def placeMinesLoop_wf)
  note ca = calcAdjacent_props [OF wb]
  from p s' have p': "inBounds (rows s) (cols s) p" by simp
  from nm s' have nm': "\<not> mine (cellAt b p)" by (simp add: ca(2))
  have "countAdjacentMines (calcAdjacent (rows s) (cols s) b) (rows s) (cols s) p =
        countAdjacentMines b (rows s) (cols s) p"
    by (rule countAdjacentMines_cong) (simp add: ca(2))
  with ca(5) [OF p' nm'] have
    "adjacent (cellAt (board s') p) = countAdjacentMines (board s') (rows s') (cols s') p"
    by (simp add: s')
  then show ?thesis
    using countAdjacentMines_bounds [of "board s'" "rows s'" "cols s'" p]
    by (simp add: countAdjacentMines_brute)
qed

theorem adjacent_counts_mines_witness:
  "wf_state freshGame \<and> placeMines draws1 freshGame (0, 0) = Some placedGame \<and>
   inBounds (rows placedGame) (cols placedGame) (1, 2) \<and>
   \<not> mine (cellAt (board placedGame) (1, 2)) \<and>
   adjacent (cellAt (board placedGame) (1, 2)) = 4 \<and>
   bruteForceCount (board placedGame) (rows placedGame) (cols placedGame) (1, 2) = 4"
proof -
  have 1: "wf_state freshGame" by code_simp
  have "placeMines draws1 freshGame (0, 0) \<noteq> None" by code_simp
  then have 2: "placeMines draws1 freshGame (0, 0) = Some placedGame"
    by (simp add: placedGame_def)
  have 3: "inBounds (rows placedGame) (cols placedGame) (1, 2)" by code_simp
  have 4: "\<not> mine (cellAt (board placedGame) (1, 2))" by code_simp
  have 5: "adjacent (cellAt (board placedGame) (1, 2)) = 4" by code_simp
  from adjacent_counts_mines [OF 1 2 3 4] 1 2 3 4 5 show ?thesis by simp
qed

subsection \<open>C1: the first reveal\<close>

text \<open>
  C1. Take a fresh board of any valid configuration (\<open>0 \<le> mineCount < rows * cols\<close>)
  and a first reveal on any cell \<open>p\<close> of it. Whenever the reveal returns, \<open>p\<close> is not a
  mine and exactly \<open>mineCount\<close> cells are mines, all of them among the other
  \<open>rows * cols - 1\<close> cells. The reveal returns as soon as the draws bring up
  \<open>mineCount\<close> different cells other than \<open>p\<close>, and draws that do so exist.
\<close>

theorem first_reveal_places_mines:
  assumes fresh: "board s = createEmptyBoard (rows s) (cols s)" "firstClick s"
    and cfg: "0 \<le> mineCount s" "mineCount s < rows s * cols s"
    and p: "inBounds (rows s) (cols s) p"
    and ds: "validDraws (rows s) (cols s) ds"
  shows "(\<forall>s'. revealCell ds s p = Some s' \<longrightarrow>
            \<not> mine (cellAt (board s') p) \<and> countMines s' = mineCount s \<and>
            set (cellsWhere mine (rows s') (cols s') (board s'))
              \<subseteq> set (allCoords (rows s) (cols s)) - {p}) \<and>
         (mineCount s \<le> int (card (set ds - {p})) \<longrightarrow> (\<exists>s'. revealCell ds s p = Some s')) \<and>
         (\<exists>s'. revealCell (allCoords (rows s) (cols s)) s p = Some s')"
proof -
  from p have pos: "0 \<le> rows s" "0 \<le> cols s" by (simp_all add: inBounds_def)
  have w: "wf_grid (rows s) (cols s) (board s)"
    using pos by (simp add: fresh(1) wf_grid_createEmptyBoard)
  have cov: "\<not> (revealed (cellAt (board s) p) \<or> flagged (cellAt (board s) p))"
    using p by (simp add: fresh(1) cellAt_createEmptyBoard emptyCell_def)
  have nomine: "\<And>q. inBounds (rows s) (cols s) q \<Longrightarrow> \<not> mine (cellAt (board s) q)"
    by (simp add: fresh(1) createEmptyBoard_no_mine)
  have zero: "cellsWhere mine (rows s) (cols s) (board s) = []"
    by (simp add: cellsWhere_def filter_empty_conv set_allCoords nomine)
  have ret: "\<And>ds'. validDraws (rows s) (cols s) ds' \<Longrightarrow> mineCount s \<le> int (card (set ds' - {p}))
     \<Longrightarrow> \<exists>s'. revealCell ds' s p = Some s'"
  proof -
    fix ds' assume v: "validDraws (rows s) (cols s) ds'" and c: "mineCount s \<le> int (card (set ds' - {p}))"
    from v have inb: "\<And>q. q \<in> set ds' \<Longrightarrow> inBounds (rows s) (cols s) q"
      by (simp add: validDraws_def list_all_iff)
    have "set ds' - {p} - {q. mine (cellAt (board s) q)} = set ds' - {p}"
      using inb nomine by auto
    with c have "mineCount s - 0 \<le> int (card (set ds' - {p} - {q. mine (cellAt (board s) q)}))"
      by simp
    from placeMinesLoop_returns [OF w v [unfolded validDraws_def] this]
    obtain b' where "placeMinesLoop ds' {p} 0 (mineCount s) (board s) = Some b'" by blast
    then show "\<exists>s'. revealCell ds' s p = Some s'"
      using cov fresh(2) by (simp add: revealCell_unfold placeOnFirstClick_def placeMines_def)
  qed
  have part1: "\<forall>s'. revealCell ds s p = Some s' \<longrightarrow>
            \<not> mine (cellAt (board s') p) \<and> countMines s' = mineCount s \<and>
            set (cellsWhere mine (rows s') (cols s') (board s'))
              \<subseteq> set (allCoords (rows s) (cols s)) - {p}"
  proof (intro allI impI)
    fix s' assume r: "revealCell ds s p = Some s'"
    with cov fresh(2) obtain t where t: "placeMines ds s p = Some t"
      and s': "s' = finishReveal (markRevealed (t\<lparr>firstClick := False\<rparr>) p) p"
      by (auto simp add: revealCell_unfold placeOnFirstClick_def)
    from t obtain b where b: "placeMinesLoop ds {p} 0 (mineCount s) (board s) = Some b"
      and tb: "t = s\<lparr>board := calcAdjacent (rows s) (cols s) b\<rparr>"
      by (auto simp add: placeMines_def split: option.splits)
    note cnt = placeMinesLoop_count [OF w ds [unfolded validDraws_def] p b cfg(1)]
    from w b have wb: "wf_grid (rows s) (cols s) b" by (rule placeMinesLoop_wf)
    have m: "\<And>q. mine (cellAt (board s') q) = mine (cellAt b q)"
      by (simp add: s' finishReveal_mine markRevealed_cells tb calcAdjacent_props(2) [OF wb])
    have dims: "rows s' = rows s" "cols s' = cols s" by (simp_all add: s' tb)
    have cw: "cellsWhere mine (rows s') (cols s') (board s') = cellsWhere mine (rows s) (cols s) b"
      unfolding dims by (rule cellsWhere_cong) (simp add: m)
    have 1: "\<not> mine (cellAt (board s') p)" using cnt nomine [OF p] by (simp add: m)
    have 2: "countMines s' = mineCount s" using cnt by (simp add: countMines_def cw zero)
    have 3: "set (cellsWhere mine (rows s') (cols s') (board s'))
              \<subseteq> set (allCoords (rows s) (cols s)) - {p}"
      using 1 by (auto simp add: cw cellsWhere_def m dims)
    from 1 2 3 show "\<not> mine (cellAt (board s') p) \<and> countMines s' = mineCount s \<and>
            set (cellsWhere mine (rows s') (cols s') (board s'))
              \<subseteq> set (allCoords (rows s) (cols s)) - {p}" by simp
  qed
  have part2: "mineCount s \<le> int (card (set ds - {p})) \<longrightarrow> (\<exists>s'. revealCell ds s p = Some s')"
    using ret [OF ds] by simp
  have va: "validDraws (rows s) (cols s) (allCoords (rows s) (cols s))"
    by (simp add: validDraws_def list_all_iff set_allCoords)
  have pin: "p \<in> set (allCoords (rows s) (cols s))" using p by (simp add: set_allCoords)
  have "int (card (set (allCoords (rows s) (cols s)))) =
        int (card (set (allCoords (rows s) (cols s)) - {p})) + (if p \<in> set (allCoords (rows s) (cols s)) then 1 else 0)"
    by (rule card_remove_int) simp
  with pin have "int (card (set (allCoords (rows s) (cols s)))) =
        int (card (set (allCoords (rows s) (cols s)) - {p})) + 1" by (simp only: if_True)
  with card_allCoords [OF pos] cfg(2)
  have "mineCount s \<le> int (card (set (allCoords (rows s) (cols s)) - {p}))" by linarith
  from ret [OF va this] have part3: "\<exists>s'. revealCell (allCoords (rows s) (cols s)) s p = Some s'" .
  from part1 part2 part3 show ?thesis by simp
qed

text \<open>Scenario A of the specification: the beginner board, first reveal on \<open>(4, 4)\<close>.\<close>

theorem first_reveal_places_mines_witness:
  "rows freshGame = 9 \<and> cols freshGame = 9 \<and> mineCount freshGame = 10 \<and>
   (\<exists>s'. revealCell draws1 freshGame (4, 4) = Some s' \<and>
         \<not> mine (cellAt (board s') (4, 4)) \<and> countMines s' = 10)"
proof -
  have 1: "board freshGame = createEmptyBoard (rows freshGame) (cols freshGame)" by code_simp
  have 2: "firstClick freshGame" by code_simp
  have 3: "0 \<le> mineCount freshGame" by code_simp
  have 4: "mineCount freshGame < rows freshGame * cols freshGame" by code_simp
  have 5: "inBounds (rows freshGame) (cols freshGame) (4, 4)" by code_simp
  have 6: "validDraws (rows freshGame) (cols freshGame) draws1" by code_simp
  have 7: "mineCount freshGame \<le> int (card (set draws1 - {(4, 4)}))" by code_simp
  have 8: "rows freshGame = 9 \<and> cols freshGame = 9 \<and> mineCount freshGame = 10" by code_simp
  note t = first_reveal_places_mines [OF 1 2 3 4 5 6]
  from t 7 obtain s' where s': "revealCell draws1 freshGame (4, 4) = Some s'" by blast
  with t have "\<not> mine (cellAt (board s') (4, 4)) \<and> countMines s' = mineCount freshGame"
    by blast
  with s' 8 show ?thesis by simp
qed

subsection \<open>C6: revealed and flagged at once\<close>

text \<open>
  C6 does not hold as stated. \<open>revealAllMines\<close> sets \<open>revealed\<close> on every mine that is
  not yet revealed, flagged or not: in the lost game above the flagged mine on
  \<open>(0, 1)\<close> ends up revealed and flagged.
\<close>

theorem revealed_and_flagged_counterexample:
  "reachable lostGame \<and> inBounds (rows lostGame) (cols lostGame) (0, 1) \<and>
   revealed (cellAt (board lostGame) (0, 1)) \<and> flagged (cellAt (board lostGame) (0, 1))"
  by (simp add: lostGame_reachable lostGame_flagged_mine)

text \<open>
  C6, amended. In every state reachable from a reset by clicks and right clicks, a cell
  of the board that is revealed and flagged at once is a mine of a game that is over
  (while the game is not over no cell is both). Once the game is over every mine of the
  board is revealed, flagged or not: the exposure at the end of the game (\<open>endGame\<close>,
  won or lost) leaves every mine revealed and keeps its flag.
\<close>

theorem revealed_and_flagged_only_exposed_mines:
  assumes "reachable s" and "inBounds (rows s) (cols s) p"
  shows "(revealed (cellAt (board s) p) \<and> flagged (cellAt (board s) p) \<longrightarrow>
            gameOver s \<and> mine (cellAt (board s) p)) \<and>
         (gameOver s \<and> mine (cellAt (board s) p) \<longrightarrow> revealed (cellAt (board s) p)) \<and>
         (\<forall>w. mine (cellAt (board s) p) \<longrightarrow>
            revealed (cellAt (board (endGame w s)) p) \<and>
            flagged (cellAt (board (endGame w s)) p) = flagged (cellAt (board s) p))"
proof -
  from assms(1) have e: "exposureInv s" by (rule reachable_exposureInv)
  from assms(1) have m: "minesExposed s" by (rule reachable_minesExposed)
  from assms(1) have w: "wf_state s" using reachable_flagInv by (simp add: flagInv_def)
  from e assms(2) have 1: "revealed (cellAt (board s) p) \<and> flagged (cellAt (board s) p) \<longrightarrow>
            gameOver s \<and> mine (cellAt (board s) p)" unfolding exposureInv_def by blast
  from m assms(2) have 2: "gameOver s \<and> mine (cellAt (board s) p) \<longrightarrow> revealed (cellAt (board s) p)"
    unfolding minesExposed_def by blast
  have 3: "\<forall>w. mine (cellAt (board s) p) \<longrightarrow>
            revealed (cellAt (board (endGame w s)) p) \<and>
            flagged (cellAt (board (endGame w s)) p) = flagged (cellAt (board s) p)"
    using endGame_reveals [OF w assms(2)] by (simp add: endGame_cells)
  from 1 2 3 show ?thesis by blast
qed

text \<open>
  In the lost game the flagged mine on \<open>(0, 1)\<close> and the unflagged mine on \<open>(0, 3)\<close> are
  both revealed; and ending the game in the state before the last click reveals the
  flagged, covered mine on \<open>(0, 1)\<close> and keeps its flag.
\<close>

theorem revealed_and_flagged_only_exposed_mines_witness:
  "reachable lostGame \<and> revealed (cellAt (board lostGame) (0, 1)) \<and>
   flagged (cellAt (board lostGame) (0, 1)) \<and>
   gameOver lostGame \<and> mine (cellAt (board lostGame) (0, 1)) \<and>
   mine (cellAt (board lostGame) (0, 3)) \<and> \<not> flagged (cellAt (board lostGame) (0, 3)) \<and>
   revealed (cellAt (board lostGame) (0, 3)) \<and>
   reachable flaggedMineGame \<and> \<not> revealed (cellAt (board flaggedMineGame) (0, 1)) \<and>
   revealed (cellAt (board (endGame False flaggedMineGame)) (0, 1)) \<and>
   flagged (cellAt (board (endGame False flaggedMineGame)) (0, 1))"
proof -
  note a = revealed_and_flagged_only_exposed_mines
             [OF lostGame_reachable lostGame_flagged_mine(1)]
  from a lostGame_flagged_mine(2,3)
  have 1: "gameOver lostGame \<and> mine (cellAt (board lostGame) (0, 1))" by blast
  note b = revealed_and_flagged_only_exposed_mines
             [OF lostGame_reachable lostGame_open_mine(1)]
  from b 1 lostGame_open_mine(2)
  have 2: "revealed (cellAt (board lostGame) (0, 3))" by blast
  note c = revealed_and_flagged_only_exposed_mines
             [OF flaggedMineGame_reachable flaggedMineGame_mine(1)]
  from c flaggedMineGame_mine(2,3)
  have 3: "revealed (cellAt (board (endGame False flaggedMineGame)) (0, 1)) \<and>
           flagged (cellAt (board (endGame False flaggedMineGame)) (0, 1))" by blast
  from 1 2 3 lostGame_reachable lostGame_flagged_mine(2,3) lostGame_open_mine(2,3)
    flaggedMineGame_reachable flaggedMineGame_mine(4)
  show ?thesis by simp
qed

subsection \<open>C3: what the flood reveals\<close>

text \<open>
  C3 does not hold as stated. The flood passes over flagged cells (and does not expand
  through cells that were revealed before): with a flag on \<open>(4, 5)\<close>, the flood from
  \<open>(4, 4)\<close>, a cell without mines around it, leaves \<open>(4, 5)\<close> covered although that
  cell is a neighbour of the start cell.
\<close>

theorem flood_component_counterexample:
  "adjacent (cellAt (board floodEntry) (4, 4)) = 0 \<and> specFlood floodEntry (4, 4) (4, 5) \<and>
   \<not> revealed (cellAt (board (floodReveal floodEntry (4, 4))) (4, 5))"
proof -
  have "zeroComponent floodEntry (4, 4) (4, 4)" by (rule zc_start)
  with floodEntry_facts(6,11) have "specFlood floodEntry (4, 4) (4, 5)"
    unfolding specFlood_def by blast
  moreover have "\<not> revealed (cellAt (board (floodReveal floodEntry (4, 4))) (4, 5))"
    by code_simp
  ultimately show ?thesis using floodEntry_facts(3) by simp
qed

text \<open>
  C3, amended. On a well-formed board without negative adjacency counts, the flood
  from a start cell reveals exactly the covered, unflagged cells without a mine that
  are a king move away from the start cell or from a cell of the 8-connected region of
  covered, unflagged, mine-free cells without mines around them that is reachable from
  the start cell; every cell revealed before stays revealed, no other cell is revealed,
  the fields \<open>mine\<close>, \<open>flagged\<close> and \<open>adjacent\<close> keep their values, and \<open>revealed\<close> is
  never set on a mine.
\<close>

theorem flood_reveals_covered_zero_region:
  assumes w: "wf_state s" and ok: "adjacentOK s" and x: "inBounds (rows s) (cols s) x"
  shows "revealed (cellAt (board (floodReveal s p)) x) =
           (revealed (cellAt (board s) x) \<or> floodArea s p x) \<and>
         mine (cellAt (board (floodReveal s p)) x) = mine (cellAt (board s) x) \<and>
         flagged (cellAt (board (floodReveal s p)) x) = flagged (cellAt (board s) x) \<and>
         adjacent (cellAt (board (floodReveal s p)) x) = adjacent (cellAt (board s) x) \<and>
         (mine (cellAt (board s) x) \<longrightarrow>
            revealed (cellAt (board (floodReveal s p)) x) = revealed (cellAt (board s) x))"
proof -
  note r = floodReveal_revealed [OF w ok x, of p]
  have m: "floodArea s p x \<Longrightarrow> \<not> mine (cellAt (board s) x)"
    by (simp add: floodArea_def eligible_def)
  from r m spec [OF floodLoop_cells [of "[p]" "{}" s], of x] show ?thesis
    by (auto simp add: floodReveal_def)
qed

theorem flood_reveals_covered_zero_region_witness:
  "wf_state floodEntry \<and> adjacentOK floodEntry \<and>
   floodArea floodEntry (4, 4) (4, 3) \<and>
   revealed (cellAt (board (floodReveal floodEntry (4, 4))) (4, 3)) \<and>
   \<not> floodArea floodEntry (4, 4) (4, 5) \<and>
   \<not> revealed (cellAt (board (floodReveal floodEntry (4, 4))) (4, 5))"
proof -
  have "floodSeed floodEntry (4, 4) (4, 4)" by (rule seed_start)
  with floodEntry_facts(5,8) have a: "floodArea floodEntry (4, 4) (4, 3)"
    unfolding floodArea_def by blast
  from floodEntry_facts(9) have b: "\<not> floodArea floodEntry (4, 4) (4, 5)"
    by (simp add: floodArea_def)
  from flood_reveals_covered_zero_region [OF floodEntry_facts(1,2,7), of "(4, 4)"] a
  have c: "revealed (cellAt (board (floodReveal floodEntry (4, 4))) (4, 3))" by simp
  from flood_reveals_covered_zero_region [OF floodEntry_facts(1,2,6), of "(4, 4)"] b
    floodEntry_facts(10)
  have d: "\<not> revealed (cellAt (board (floodReveal floodEntry (4, 4))) (4, 5))" by simp
  from a b c d floodEntry_facts(1,2) show ?thesis by simp
qed

end
